theory Spec2Isabelle
  imports Main "HOL-Library.AList"
begin

section \<open>The LRU map of \<open>yovanoc/lru\<close>: entries, the cache object and its store\<close>

text \<open>
  The class \<open>LRUMap\<close> keeps its entries as objects linked in both directions
  (\<open>entry[NEWER]\<close>, \<open>entry[OLDER]\<close>) and mutates them in place. The model keeps the
  objects in an explicit store: an entry reference is an address, the store maps every
  address to the fields of the object there, and \<open>new Entry\<close> takes the next unused
  address. A TypeScript reference always points to an object, so the store is a total
  function; addresses at or above \<open>fresh\<close> hold objects no reference of the cache
  mentions.

  \<open>undefined\<close> in a link or an endpoint is \<open>None\<close>. The field \<open>value\<close> of the source
  is \<open>val\<close> here, and \<open>size\<close> is \<open>size_lru\<close>. Both \<open>size\<close> and \<open>limit\<close> are JavaScript
  numbers that the code only compares, increments and decrements: they are integers
  here (the specification takes \<open>limit\<close> to be a non-negative integer; the code also
  accepts a negative one).

  The private \<open>keymap\<close> is a JavaScript \<open>Map\<close>: an association list with the
  operations of \<open>AList\<close> (\<open>Map.set\<close> replaces the value of a key already there and
  appends a new key, \<open>Map.delete\<close> removes the key, \<open>Map.size\<close> is the length).
\<close>

type_synonym addr = nat

record ('k, 'v) entry =
  key :: 'k
  val :: 'v
  newer :: "addr option"
  older :: "addr option"

record ('k, 'v) lru_map =
  size_lru :: int
  limit :: int
  oldest :: "addr option"
  newest :: "addr option"
  keymap :: "('k \<times> addr) list"
  heap :: "addr \<Rightarrow> ('k, 'v) entry"
  fresh :: addr

datatype error = Overflow

subsection \<open>Field writes and allocation\<close>

definition set_NEWER :: "addr \<Rightarrow> addr option \<Rightarrow> ('k, 'v) lru_map \<Rightarrow> ('k, 'v) lru_map" where
  "set_NEWER a x c = c\<lparr>heap := (heap c)(a := (heap c a)\<lparr>newer := x\<rparr>)\<rparr>"

definition set_OLDER :: "addr \<Rightarrow> addr option \<Rightarrow> ('k, 'v) lru_map \<Rightarrow> ('k, 'v) lru_map" where
  "set_OLDER a x c = c\<lparr>heap := (heap c)(a := (heap c a)\<lparr>older := x\<rparr>)\<rparr>"

definition set_val :: "addr \<Rightarrow> 'v \<Rightarrow> ('k, 'v) lru_map \<Rightarrow> ('k, 'v) lru_map" where
  "set_val a v c = c\<lparr>heap := (heap c)(a := (heap c a)\<lparr>val := v\<rparr>)\<rparr>"

text \<open>\<open>new Entry(key, value)\<close>: both links start undefined.\<close>

definition new_Entry :: "'k \<Rightarrow> 'v \<Rightarrow> ('k, 'v) lru_map \<Rightarrow> addr \<times> ('k, 'v) lru_map" where
  "new_Entry k v c =
     (fresh c,
      c\<lparr>heap := (heap c)(fresh c := \<lparr>key = k, val = v, newer = None, older = None\<rparr>),
        fresh := Suc (fresh c)\<rparr>)"

subsection \<open>The operations of \<open>LRUMap\<close>\<close>

text \<open>
  \<open>_markEntryAsUsed(entry)\<close>. Every read of a field is taken from the state the
  statement before it left, as the source does.
\<close>

definition markEntryAsUsed :: "addr \<Rightarrow> ('k, 'v) lru_map \<Rightarrow> ('k, 'v) lru_map" where
  "markEntryAsUsed e c =
     (if newest c = Some e then c
      else
        let c1 = (case newer (heap c e) of
                    Some n \<Rightarrow>
                      let c0 = (if oldest c = Some e then c\<lparr>oldest := Some n\<rparr> else c)
                      in set_OLDER n (older (heap c0 e)) c0
                  | None \<Rightarrow> c);
            c2 = (case older (heap c1 e) of
                    Some p \<Rightarrow> set_NEWER p (newer (heap c1 e)) c1
                  | None \<Rightarrow> c1);
            c3 = set_NEWER e None c2;
            c4 = set_OLDER e (newest c3) c3;
            c5 = (case newest c4 of
                    Some t \<Rightarrow> set_NEWER t (Some e) c4
                  | None \<Rightarrow> c4)
        in c5\<lparr>newest := Some e\<rparr>)"

text \<open>\<open>get(key)\<close>: the value returned (or \<open>None\<close> for \<open>undefined\<close>) and the state left.\<close>

definition get :: "('k, 'v) lru_map \<Rightarrow> 'k \<Rightarrow> 'v option \<times> ('k, 'v) lru_map" where
  "get c k =
     (case map_of (keymap c) k of
        None \<Rightarrow> (None, c)
      | Some e \<Rightarrow> let c1 = markEntryAsUsed e c in (Some (val (heap c1 e)), c1))"

text \<open>\<open>shift()\<close>: the pair returned and the state left.\<close>

definition shift :: "('k, 'v) lru_map \<Rightarrow> ('k \<times> 'v) option \<times> ('k, 'v) lru_map" where
  "shift c =
     (case oldest c of
        None \<Rightarrow> (None, c)
      | Some e \<Rightarrow>
          let c1 = (case newer (heap c e) of
                      Some n \<Rightarrow> set_OLDER n None (c\<lparr>oldest := Some n\<rparr>)
                    | None \<Rightarrow> c\<lparr>oldest := None, newest := None\<rparr>);
              c2 = set_NEWER e None (set_OLDER e None c1);
              c3 = c2\<lparr>keymap := AList.delete (key (heap c2 e)) (keymap c2)\<rparr>;
              c4 = c3\<lparr>size_lru := size_lru c3 - 1\<rparr>
          in (Some (key (heap c4 e), val (heap c4 e)), c4))"

text \<open>
  \<open>set(key, value)\<close>. The source returns \<open>this\<close> and drops what its call of
  \<open>shift()\<close> returns; \<open>set_step\<close> keeps that pair beside the state (\<open>None\<close> when
  \<open>shift\<close> was not called or found nothing), so that an eviction can be observed.
\<close>

definition set_step :: "('k, 'v) lru_map \<Rightarrow> 'k \<Rightarrow> 'v \<Rightarrow> ('k \<times> 'v) option \<times> ('k, 'v) lru_map" where
  "set_step c k v =
     (case map_of (keymap c) k of
        Some e \<Rightarrow> (None, markEntryAsUsed e (set_val e v c))
      | None \<Rightarrow>
          let (e, c1) = new_Entry k v c;
              c2 = c1\<lparr>keymap := AList.update k e (keymap c1)\<rparr>;
              c3 = (case newest c2 of
                      Some t \<Rightarrow> set_OLDER e (newest c2) (set_NEWER t (Some e) c2)
                    | None \<Rightarrow> c2\<lparr>oldest := Some e\<rparr>);
              c4 = c3\<lparr>newest := Some e\<rparr>;
              c5 = c4\<lparr>size_lru := size_lru c4 + 1\<rparr>
          in if size_lru c5 > limit c5 then shift c5 else (None, c5))"

definition set_lru :: "('k, 'v) lru_map \<Rightarrow> 'k \<Rightarrow> 'v \<Rightarrow> ('k, 'v) lru_map" where
  "set_lru c k v = snd (set_step c k v)"

definition has :: "('k, 'v) lru_map \<Rightarrow> 'k \<Rightarrow> bool" where
  "has c k = (map_of (keymap c) k \<noteq> None)"

definition find_lru :: "('k, 'v) lru_map \<Rightarrow> 'k \<Rightarrow> 'v option" where
  "find_lru c k = (case map_of (keymap c) k of None \<Rightarrow> None | Some e \<Rightarrow> Some (val (heap c e)))"

text \<open>
  \<open>delete(key)\<close>. In the first branch the write \<open>entry[OLDER][NEWER] = entry[NEWER]\<close>
  stores the value \<open>entry[NEWER]\<close> already has, also when \<open>entry[OLDER]\<close> is the entry
  itself, so the second statement reads the same two links \<open>n\<close> and \<open>p\<close>.
\<close>

definition delete :: "('k, 'v) lru_map \<Rightarrow> 'k \<Rightarrow> 'v option \<times> ('k, 'v) lru_map" where
  "delete c k =
     (case map_of (keymap c) k of
        None \<Rightarrow> (None, c)
      | Some e \<Rightarrow>
          let c1 = c\<lparr>keymap := AList.delete (key (heap c e)) (keymap c)\<rparr>;
              c2 = (case (newer (heap c1 e), older (heap c1 e)) of
                      (Some n, Some p) \<Rightarrow> set_OLDER n (Some p) (set_NEWER p (Some n) c1)
                    | (Some n, None) \<Rightarrow> (set_OLDER n None c1)\<lparr>oldest := Some n\<rparr>
                    | (None, Some p) \<Rightarrow> (set_NEWER p None c1)\<lparr>newest := Some p\<rparr>
                    | (None, None) \<Rightarrow> c1\<lparr>oldest := None, newest := None\<rparr>);
              c3 = c2\<lparr>size_lru := size_lru c2 - 1\<rparr>
          in (Some (val (heap c3 e)), c3))"

definition clear :: "('k, 'v) lru_map \<Rightarrow> ('k, 'v) lru_map" where
  "clear c = c\<lparr>oldest := None, newest := None, size_lru := 0, keymap := []\<rparr>"

text \<open>
  \<open>assign(entries)\<close>. The local \<open>limit\<close> counts down from \<open>this.limit || Number.MAX_VALUE\<close>:
  \<open>Some l\<close> is a nonzero \<open>this.limit\<close>, and \<open>None\<close> is \<open>Number.MAX_VALUE\<close>, which
  \<open>limit--\<close> leaves unchanged and the test \<open>=== 0\<close> never meets. The local \<open>entry\<close> is the
  entry of the pair before. A throw leaves the state the loop had reached: the result
  is \<open>Inl\<close> of the error with that state, a normal return is \<open>Inr\<close> of the state.
\<close>

fun assign_loop ::
  "('k, 'v) lru_map \<Rightarrow> addr option \<Rightarrow> int option \<Rightarrow> ('k \<times> 'v) list
    \<Rightarrow> (error \<times> ('k, 'v) lru_map) + ('k, 'v) lru_map" where
  "assign_loop c entry lim [] =
     Inr ((c\<lparr>newest := entry\<rparr>)\<lparr>size_lru := int (length (keymap c))\<rparr>)"
| "assign_loop c entry lim ((k, v) # rest) =
     (let (e, c1) = new_Entry k v c;
          c2 = c1\<lparr>keymap := AList.update k e (keymap c1)\<rparr>;
          c3 = (case entry of
                  None \<Rightarrow> c2\<lparr>oldest := Some e\<rparr>
                | Some p \<Rightarrow> set_OLDER e (Some p) (set_NEWER p (Some e) c2))
      in if lim = Some 0 then Inl (Overflow, c3)
         else assign_loop c3 (Some e) (map_option (\<lambda>l. l - 1) lim) rest)"

definition assign ::
  "('k, 'v) lru_map \<Rightarrow> ('k \<times> 'v) list \<Rightarrow> (error \<times> ('k, 'v) lru_map) + ('k, 'v) lru_map" where
  "assign c entries =
     assign_loop (c\<lparr>keymap := []\<rparr>) None (if limit c = 0 then None else Some (limit c)) entries"

text \<open>
  The constructor. Both arguments are optional (\<open>None\<close> is an argument left out); a
  missing or zero \<open>limit\<close> is 0. \<open>h\<close> and \<open>n\<close> are the store and the next unused address
  when the constructor runs. A throw of \<open>assign\<close> leaves no object.
\<close>

definition LRUMap ::
  "int option \<Rightarrow> ('k \<times> 'v) list option \<Rightarrow> (addr \<Rightarrow> ('k, 'v) entry) \<Rightarrow> addr
    \<Rightarrow> error + ('k, 'v) lru_map" where
  "LRUMap lim entries h n =
     (let c = \<lparr>size_lru = 0, limit = (case lim of None \<Rightarrow> 0 | Some l \<Rightarrow> l),
                oldest = None, newest = None, keymap = [], heap = h, fresh = n\<rparr>
      in case entries of
           None \<Rightarrow> Inr c
         | Some es \<Rightarrow>
             (case assign c es of
                Inl (err, _) \<Rightarrow> Inl err
              | Inr c1 \<Rightarrow> Inr (if limit c1 < 1 then c1\<lparr>limit := size_lru c1\<rparr> else c1)))"

text \<open>
  The loops of \<open>forEach\<close>, \<open>toJSON\<close>, \<open>toString\<close> and the iterators follow
  \<open>entry[NEWER]\<close> from \<open>this.oldest\<close> until it is undefined; on a cyclic chain they do
  not end. \<open>chain n h x\<close> runs such a loop for at most \<open>n\<close> entries: \<open>Some\<close> of the
  entries visited when the loop has ended by then, \<open>None\<close> when it has not.
  \<open>toJSON_upto n c\<close> is the array of \<open>toJSON\<close> under that bound, as (key, value) pairs,
  and \<open>toJSON c\<close> takes \<open>this.size\<close> as the bound (the length the source allocates).
\<close>

fun chain :: "nat \<Rightarrow> (addr \<Rightarrow> ('k, 'v) entry) \<Rightarrow> addr option \<Rightarrow> addr list option" where
  "chain n h None = Some []"
| "chain 0 h (Some a) = None"
| "chain (Suc n) h (Some a) = map_option ((#) a) (chain n h (newer (h a)))"

definition pairs :: "('k, 'v) lru_map \<Rightarrow> addr list \<Rightarrow> ('k \<times> 'v) list" where
  "pairs c as = map (\<lambda>a. (key (heap c a), val (heap c a))) as"

definition toJSON_upto :: "nat \<Rightarrow> ('k, 'v) lru_map \<Rightarrow> ('k \<times> 'v) list option" where
  "toJSON_upto n c = map_option (pairs c) (chain n (heap c) (oldest c))"

definition toJSON :: "('k, 'v) lru_map \<Rightarrow> ('k \<times> 'v) list option" where
  "toJSON c = toJSON_upto (nat (size_lru c)) c"

section \<open>The structural invariant\<close>

text \<open>
  \<open>seg f h x as y\<close>: following the link \<open>f\<close> from the reference \<open>x\<close> visits exactly the
  entries \<open>as\<close>, in this order, and arrives at the reference \<open>y\<close>.
\<close>

fun seg :: "(('k, 'v) entry \<Rightarrow> addr option) \<Rightarrow> (addr \<Rightarrow> ('k, 'v) entry) \<Rightarrow> addr option \<Rightarrow> addr list \<Rightarrow> addr option \<Rightarrow> bool" where
  "seg f h x [] y = (x = y)"
| "seg f h x (a # as) y = (x = Some a \<and> seg f h (f (h a)) as y)"

definition index_ok :: "('k \<times> addr) list \<Rightarrow> (addr \<Rightarrow> ('k, 'v) entry) \<Rightarrow> addr list \<Rightarrow> bool" where
  "index_ok km h xs = (distinct (map fst km) \<and> set km = (\<lambda>a. (key (h a), a)) ` set xs)"

definition inv_on :: "('k, 'v) lru_map \<Rightarrow> addr list \<Rightarrow> bool" where
  "inv_on c xs =
     (size_lru c = int (length xs) \<and>
      seg newer (heap c) (oldest c) xs None \<and>
      seg older (heap c) (newest c) (rev xs) None \<and>
      distinct xs \<and> (\<forall>a\<in>set xs. a < fresh c) \<and>
      index_ok (keymap c) (heap c) xs)"

text \<open>
  The invariant of the data model: the \<open>newer\<close> chain from \<open>oldest\<close> ends after \<open>size\<close>
  entries, and the entries on it satisfy \<open>inv_on\<close>.
\<close>

definition lru_inv :: "('k, 'v) lru_map \<Rightarrow> bool" where
  "lru_inv c =
     (case chain (nat (size_lru c)) (heap c) (oldest c) of
        None \<Rightarrow> False
      | Some xs \<Rightarrow> inv_on c xs)"

text \<open>
  The state \<open>set\<close> has reached just before its test \<open>this.size > this.limit\<close>, for a key
  that is not in the index: the new entry is linked after the newest one.
\<close>

definition appended :: "('k, 'v) lru_map \<Rightarrow> 'k \<Rightarrow> 'v \<Rightarrow> ('k, 'v) lru_map" where
  "appended c k v =
     (let (e, c1) = new_Entry k v c;
          c2 = c1\<lparr>keymap := AList.update k e (keymap c1)\<rparr>;
          c3 = (case newest c2 of
                  Some t \<Rightarrow> set_OLDER e (newest c2) (set_NEWER t (Some e) c2)
                | None \<Rightarrow> c2\<lparr>oldest := Some e\<rparr>);
          c4 = c3\<lparr>newest := Some e\<rparr>
      in c4\<lparr>size_lru := size_lru c4 + 1\<rparr>)"

text \<open>\<open>order c\<close>: the entries from oldest to newest, as the loop bounded by \<open>size\<close> visits them.\<close>

definition order :: "('k, 'v) lru_map \<Rightarrow> addr list option" where
  "order c = chain (nat (size_lru c)) (heap c) (oldest c)"

subsection \<open>Sequences of \<open>set\<close> calls\<close>

text \<open>
  \<open>run_sets c ops\<close> calls \<open>set\<close> for each pair of \<open>ops\<close> in turn. \<open>created c ops\<close> counts
  the calls that made a new entry (the key was not in the index when \<open>set\<close> was
  called), \<open>evicted c ops\<close> the calls whose \<open>shift()\<close> removed an entry.
\<close>

fun run_sets :: "('k, 'v) lru_map \<Rightarrow> ('k \<times> 'v) list \<Rightarrow> ('k, 'v) lru_map" where
  "run_sets c [] = c"
| "run_sets c ((k, v) # ops) = run_sets (set_lru c k v) ops"

fun created :: "('k, 'v) lru_map \<Rightarrow> ('k \<times> 'v) list \<Rightarrow> nat" where
  "created c [] = 0"
| "created c ((k, v) # ops) =
     (if map_of (keymap c) k = None then 1 else 0) + created (set_lru c k v) ops"

fun evicted :: "('k, 'v) lru_map \<Rightarrow> ('k \<times> 'v) list \<Rightarrow> nat" where
  "evicted c [] = 0"
| "evicted c ((k, v) # ops) =
     (if fst (set_step c k v) = None then 0 else 1) + evicted (set_lru c k v) ops"

subsection \<open>Concrete caches\<close>

text \<open>
  A store of blank entries, and the cache \<open>new LRUMap(l)\<close> builds in it, with string
  keys and integer values as in the tests of the repository.
\<close>

definition blank :: "addr \<Rightarrow> (string, int) entry" where
  "blank = (\<lambda>_. \<lparr>key = [], val = 0, newer = None, older = None\<rparr>)"

definition fresh_cache :: "int \<Rightarrow> (string, int) lru_map" where
  "fresh_cache l =
     \<lparr>size_lru = 0, limit = l, oldest = None, newest = None, keymap = [], heap = blank, fresh = 0\<rparr>"

text \<open>The five pairs of the test \<open>Assign\<close>; its first four are a full load for limit 4.\<close>

definition five :: "(string \<times> int) list" where
  "five = [(''adam'', 29), (''john'', 26), (''angela'', 24), (''bob'', 48), (''ken'', 30)]"

text \<open>\<open>shifts n c\<close>: what \<open>n\<close> calls of \<open>shift()\<close> in a row return.\<close>

fun shifts :: "nat \<Rightarrow> ('k, 'v) lru_map \<Rightarrow> ('k \<times> 'v) option list" where
  "shifts 0 c = []"
| "shifts (Suc n) c = fst (shift c) # shifts n (snd (shift c))"

text \<open>The cache of capacity 3 after \<open>set\<close> of a, b and c.\<close>

definition abc :: "(string, int) lru_map" where
  "abc = set_lru (set_lru (set_lru (fresh_cache 3) ''a'' 1) ''b'' 2) ''c'' 3"

text \<open>Three \<open>set\<close> calls on two keys: a, b, and a again.\<close>

definition aba :: "(string \<times> int) list" where
  "aba = [(''a'', 1), (''b'', 2), (''a'', 3)]"

section \<open>Paths, the index and what the operations do to them\<close>

lemma seg_append_Cons [simp]:
  "seg f h x (as @ b # bs) z \<longleftrightarrow> seg f h x as (Some b) \<and> seg f h (f (h b)) bs z"
  by (induction as arbitrary: x) auto

lemma seg_cong:
  "(\<And>a. a \<in> set xs \<Longrightarrow> f (h' a) = f (h a)) \<Longrightarrow> seg f h' x xs y = seg f h x xs y"
  by (induction xs arbitrary: x) auto

lemma seg_upd_other [simp]:
  "a \<notin> set xs \<Longrightarrow> seg f (h(a := e)) x xs y = seg f h x xs y"
  by (rule seg_cong) auto

lemma seg_upd_same_field [simp]:
  "f e = f (h a) \<Longrightarrow> seg f (h(a := e)) x xs y = seg f h x xs y"
  by (rule seg_cong) auto

lemma seg_chain:
  "seg newer h x xs None \<Longrightarrow> length xs \<le> n \<Longrightarrow> chain n h x = Some xs"
proof (induction xs arbitrary: x n)
  case Nil
  then show ?case by simp
next
  case (Cons a as)
  then show ?case by (cases n) auto
qed

lemma inv_on_chain: "inv_on c xs \<Longrightarrow> chain (nat (size_lru c)) (heap c) (oldest c) = Some xs"
  by (simp add: inv_on_def seg_chain)

lemma lru_inv_iff: "lru_inv c \<longleftrightarrow> (\<exists>xs. inv_on c xs)"
proof
  assume "lru_inv c"
  then show "\<exists>xs. inv_on c xs" by (auto simp: lru_inv_def split: option.splits)
next
  assume "\<exists>xs. inv_on c xs"
  then obtain xs where "inv_on c xs" ..
  then show "lru_inv c" by (simp add: lru_inv_def inv_on_chain)
qed

lemma inv_on_toJSON:
  "inv_on c xs \<Longrightarrow> nat (size_lru c) \<le> n \<Longrightarrow> toJSON_upto n c = Some (pairs c xs)"
proof -
  assume i: "inv_on c xs" and n: "nat (size_lru c) \<le> n"
  have "chain n (heap c) (oldest c) = Some xs"
    using i n by (intro seg_chain) (simp_all add: inv_on_def)
  then show ?thesis by (simp add: toJSON_upto_def)
qed

lemma index_ok_cong:
  "(\<And>a. a \<in> set xs \<Longrightarrow> key (h' a) = key (h a)) \<Longrightarrow> set xs' = set xs \<Longrightarrow> index_ok km h' xs' = index_ok km h xs"
proof -
  assume k: "\<And>a. a \<in> set xs \<Longrightarrow> key (h' a) = key (h a)" and s: "set xs' = set xs"
  have "(\<lambda>a. (key (h' a), a)) ` set xs' = (\<lambda>a. (key (h a), a)) ` set xs"
    using k s by (auto simp: image_iff)
  then show ?thesis by (simp add: index_ok_def)
qed

lemma index_ok_upd_other [simp]:
  "a \<notin> set xs \<Longrightarrow> index_ok km (h(a := e)) xs = index_ok km h xs"
  by (rule index_ok_cong) auto

lemma index_ok_upd_key [simp]:
  "key e = key (h a) \<Longrightarrow> index_ok km (h(a := e)) xs = index_ok km h xs"
  by (rule index_ok_cong) auto

lemma index_ok_lookup:
  "index_ok km h xs \<Longrightarrow> map_of km k = Some a \<longleftrightarrow> a \<in> set xs \<and> key (h a) = k"
  unfolding index_ok_def by (auto simp: map_of_eq_Some_iff)

lemma index_ok_same_key:
  assumes "index_ok km h xs" "a \<in> set xs" "b \<in> set xs" "key (h b) = key (h a)"
  shows "b = a"
proof -
  have d: "distinct (map fst km)" and s: "set km = (\<lambda>b. (key (h b), b)) ` set xs"
    using assms(1) by (simp_all add: index_ok_def)
  have "(key (h b), b) \<in> set km" unfolding s using assms(3) by (rule imageI)
  then have 1: "(key (h a), b) \<in> set km" by (simp only: assms(4))
  have 2: "(key (h a), a) \<in> set km" unfolding s using assms(2) by (rule imageI)
  show ?thesis using d 1 2 by (rule eq_key_imp_eq_value)
qed

lemma index_ok_delete:
  assumes "index_ok km h xs" "a \<in> set xs" "distinct xs"
  shows "index_ok (AList.delete (key (h a)) km) h (remove1 a xs)"
proof -
  let ?p = "\<lambda>b. (key (h b), b)"
  have d: "distinct (map fst km)" and s: "set km = ?p ` set xs"
    using assms(1) by (simp_all add: index_ok_def)
  have "set (AList.delete (key (h a)) km) = {p \<in> set km. fst p \<noteq> key (h a)}"
    by (auto simp: AList.delete_eq)
  also have "\<dots> = {p \<in> ?p ` set xs. fst p \<noteq> key (h a)}"
    by (simp only: s)
  also have "\<dots> = ?p ` (set xs - {a})"
  proof (intro set_eqI iffI)
    fix p assume "p \<in> {p \<in> ?p ` set xs. fst p \<noteq> key (h a)}"
    then obtain b where b: "b \<in> set xs" "p = ?p b" "key (h b) \<noteq> key (h a)" by auto
    then have "b \<noteq> a" by blast
    then show "p \<in> ?p ` (set xs - {a})" using b by blast
  next
    fix p assume "p \<in> ?p ` (set xs - {a})"
    then obtain b where b: "b \<in> set xs" "p = ?p b" "b \<noteq> a" by auto
    then have "key (h b) \<noteq> key (h a)"
      using index_ok_same_key[OF assms(1) assms(2)] by blast
    then show "p \<in> {p \<in> ?p ` set xs. fst p \<noteq> key (h a)}" using b by simp
  qed
  also have "set xs - {a} = set (remove1 a xs)"
    using assms(3) by simp
  finally show ?thesis using d by (simp add: index_ok_def distinct_delete)
qed

lemma update_absent: "k \<notin> fst ` set km \<Longrightarrow> AList.update k a km = km @ [(k, a)]"
  by (induction km) auto

lemma index_ok_update:
  assumes "index_ok km h xs" "map_of km k = None" "a \<notin> set xs" "key (h a) = k"
  shows "index_ok (AList.update k a km) h (xs @ [a])"
proof -
  have d: "distinct (map fst km)" and s: "set km = (\<lambda>a. (key (h a), a)) ` set xs"
    using assms(1) by (simp_all add: index_ok_def)
  have n: "k \<notin> fst ` set km" using assms(2) by (simp add: map_of_eq_None_iff)
  have e: "AList.update k a km = km @ [(k, a)]" using n by (rule update_absent)
  show ?thesis unfolding e index_ok_def using d n assms(4) by (simp add: s)
qed

lemma shift_inv_on:
  assumes "inv_on c (a # as)"
  shows "fst (shift c) = Some (key (heap c a), val (heap c a))"
    and "inv_on (snd (shift c)) as"
    and "newer (heap (snd (shift c)) a) = None \<and> older (heap (snd (shift c)) a) = None"
proof -
  have o: "oldest c = Some a" using assms by (simp add: inv_on_def)
  show "fst (shift c) = Some (key (heap c a), val (heap c a))"
    by (simp add: shift_def o Let_def set_NEWER_def set_OLDER_def split: option.splits)
  show "newer (heap (snd (shift c)) a) = None \<and> older (heap (snd (shift c)) a) = None"
    by (simp add: shift_def o Let_def set_NEWER_def set_OLDER_def split: option.splits)
  have ix: "index_ok (AList.delete (key (heap c a)) (keymap c)) (heap c) as"
    using index_ok_delete[of "keymap c" "heap c" "a # as" a] assms by (simp add: inv_on_def)
  show "inv_on (snd (shift c)) as"
  proof (cases as)
    case Nil
    then show ?thesis using assms ix
      by (simp add: inv_on_def shift_def Let_def set_NEWER_def set_OLDER_def)
  next
    case (Cons n as')
    then show ?thesis using assms ix
      by (auto simp add: inv_on_def shift_def Let_def set_NEWER_def set_OLDER_def)
  qed
qed

lemma index_ok_perm:
  "set ys = set xs \<Longrightarrow> index_ok km h ys = index_ok km h xs"
  by (rule index_ok_cong) auto

lemma seg_Some_notin [simp]:
  "a \<notin> set xs \<Longrightarrow> seg f h (Some a) xs y \<longleftrightarrow> xs = [] \<and> y = Some a"
  by (cases xs) auto

lemma mark_newest:
  "newest c = Some e \<Longrightarrow> markEntryAsUsed e c = c"
  by (simp add: markEntryAsUsed_def)

lemma mark_inv_on_mid:
  assumes "inv_on c (us @ e # ws @ [t])"
  shows "inv_on (markEntryAsUsed e c) (us @ ws @ [t, e])"
proof -
  have ne: "newest c = Some t" "t \<noteq> e" using assms by (auto simp: inv_on_def)
  have ix: "index_ok (keymap c) (heap c) (us @ ws @ [t, e])"
    using assms index_ok_perm[of "us @ ws @ [t, e]" "us @ e # ws @ [t]"] by (auto simp: inv_on_def)
  show ?thesis
  proof (cases us rule: rev_cases)
    case Nil
    show ?thesis
    proof (cases ws)
      case Nil
      then show ?thesis using assms ne ix \<open>us = []\<close>
        by (auto simp: inv_on_def markEntryAsUsed_def Let_def set_NEWER_def set_OLDER_def)
    next
      case (Cons w ws')
      then show ?thesis using assms ne ix \<open>us = []\<close>
        by (auto simp: inv_on_def markEntryAsUsed_def Let_def set_NEWER_def set_OLDER_def)
    qed
  next
    case (snoc us' p)
    show ?thesis
    proof (cases ws)
      case Nil
      then show ?thesis using assms ne ix snoc
        by (auto simp: inv_on_def markEntryAsUsed_def Let_def set_NEWER_def set_OLDER_def)
    next
      case (Cons w ws')
      then show ?thesis using assms ne ix snoc
        by (auto simp: inv_on_def markEntryAsUsed_def Let_def set_NEWER_def set_OLDER_def)
    qed
  qed
qed

lemma delete_absent: "map_of (keymap c) k = None \<Longrightarrow> delete c k = (None, c)"
  by (simp add: delete_def)

lemma delete_inv_on:
  assumes "inv_on c (us @ e # vs)" and "map_of (keymap c) k = Some e"
  shows "inv_on (snd (delete c k)) (us @ vs)"
proof -
  have ix: "index_ok (AList.delete (key (heap c e)) (keymap c)) (heap c) (us @ vs)"
    using assms(1) index_ok_delete[of "keymap c" "heap c" "us @ e # vs" e]
    by (auto simp: inv_on_def remove1_append)
  show ?thesis
  proof (cases us rule: rev_cases)
    case Nil
    show ?thesis
    proof (cases vs)
      case Nil
      then show ?thesis using assms ix \<open>us = []\<close>
        by (auto simp: inv_on_def delete_def Let_def set_NEWER_def set_OLDER_def)
    next
      case (Cons w ws')
      then show ?thesis using assms ix \<open>us = []\<close>
        by (auto simp: inv_on_def delete_def Let_def set_NEWER_def set_OLDER_def)
    qed
  next
    case (snoc us' p)
    show ?thesis
    proof (cases vs)
      case Nil
      then show ?thesis using assms ix snoc
        by (auto simp: inv_on_def delete_def Let_def set_NEWER_def set_OLDER_def)
    next
      case (Cons w ws')
      then show ?thesis using assms ix snoc
        by (auto simp: inv_on_def delete_def Let_def set_NEWER_def set_OLDER_def)
    qed
  qed
qed

lemma delete_result:
  assumes "map_of (keymap c) k = Some e"
  shows "fst (delete c k) = Some (val (heap c e))"
    and "size_lru (snd (delete c k)) = size_lru c - 1"
    and "keymap (snd (delete c k)) = AList.delete (key (heap c e)) (keymap c)"
    and "limit (snd (delete c k)) = limit c"
  using assms
  by (auto simp: delete_def Let_def set_NEWER_def set_OLDER_def split: option.splits)

lemma set_step_absent:
  "map_of (keymap c) k = None \<Longrightarrow>
   set_step c k v =
     (if size_lru (appended c k v) > limit (appended c k v) then shift (appended c k v)
      else (None, appended c k v))"
  by (simp add: set_step_def appended_def Let_def split_def)

lemma appended_fields:
  "size_lru (appended c k v) = size_lru c + 1"
  "limit (appended c k v) = limit c"
  "fresh (appended c k v) = Suc (fresh c)"
  "keymap (appended c k v) = AList.update k (fresh c) (keymap c)"
  "newest (appended c k v) = Some (fresh c)"
  by (simp_all add: appended_def new_Entry_def Let_def set_NEWER_def set_OLDER_def split: option.splits)

lemma set_step_present:
  "map_of (keymap c) k = Some e \<Longrightarrow> set_step c k v = (None, markEntryAsUsed e (set_val e v c))"
  by (simp add: set_step_def)

lemma appended_inv_on:
  assumes "inv_on c xs" and "map_of (keymap c) k = None"
  shows "inv_on (appended c k v) (xs @ [fresh c])"
proof -
  have f: "fresh c \<notin> set xs" using assms(1) by (auto simp: inv_on_def)
  show ?thesis
  proof (cases xs rule: rev_cases)
    case Nil
    then show ?thesis using assms index_ok_update[of "keymap c" "(heap c)(fresh c := \<lparr>key = k, val = v, newer = None, older = None\<rparr>)" "[]" k "fresh c"]
      by (auto simp: inv_on_def appended_def new_Entry_def Let_def set_NEWER_def set_OLDER_def)
  next
    case (snoc ys t)
    have t: "newest c = Some t" "t \<noteq> fresh c" using assms(1) snoc by (auto simp: inv_on_def)
    let ?h = "(heap c)(t := (heap c t)\<lparr>newer := Some (fresh c)\<rparr>,
                       fresh c := \<lparr>key = k, val = v, newer = None, older = Some t\<rparr>)"
    have "index_ok (keymap c) ?h xs" using assms(1) f t by (simp add: inv_on_def)
    then have "index_ok (AList.update k (fresh c) (keymap c)) ?h (xs @ [fresh c])"
      using assms(2) f t by (intro index_ok_update) auto
    then show ?thesis using assms(1) snoc t f
      by (auto simp: inv_on_def appended_def new_Entry_def Let_def set_NEWER_def set_OLDER_def less_Suc_eq)
  qed
qed

lemma set_val_inv_on: "inv_on c xs \<Longrightarrow> inv_on (set_val e v c) xs"
  by (simp add: inv_on_def set_val_def)

lemma mark_inv_on:
  assumes "inv_on c xs" and "e \<in> set xs"
  shows "inv_on (markEntryAsUsed e c) (remove1 e xs @ [e])"
proof -
  obtain us vs where xs: "xs = us @ e # vs" and u: "e \<notin> set us"
    using assms(2) by (meson split_list_first)
  show ?thesis
  proof (cases vs rule: rev_cases)
    case Nil
    then have "newest c = Some e" using assms(1) xs by (simp add: inv_on_def)
    then show ?thesis using assms(1) xs u Nil by (simp add: mark_newest remove1_append)
  next
    case (snoc ws t)
    then show ?thesis
      using mark_inv_on_mid[of c us e ws t] assms(1) xs u by (simp add: remove1_append)
  qed
qed

lemma mark_fields:
  "key (heap (markEntryAsUsed e c) a) = key (heap c a)"
  "val (heap (markEntryAsUsed e c) a) = val (heap c a)"
  "size_lru (markEntryAsUsed e c) = size_lru c"
  "limit (markEntryAsUsed e c) = limit c"
  "keymap (markEntryAsUsed e c) = keymap c"
  "fresh (markEntryAsUsed e c) = fresh c"
  "newest (markEntryAsUsed e c) = Some e"
  by (simp_all add: markEntryAsUsed_def Let_def set_NEWER_def set_OLDER_def split: option.splits)

lemma heap_set_NEWER [simp]: "heap (set_NEWER a x c) = (heap c)(a := (heap c a)\<lparr>newer := x\<rparr>)"
  and heap_set_OLDER [simp]: "heap (set_OLDER a x c) = (heap c)(a := (heap c a)\<lparr>older := x\<rparr>)"
  and heap_set_val [simp]: "heap (set_val a v c) = (heap c)(a := (heap c a)\<lparr>val := v\<rparr>)"
  by (simp_all add: set_NEWER_def set_OLDER_def set_val_def)

lemma fields_set_NEWER [simp]:
  "size_lru (set_NEWER a x c) = size_lru c" "limit (set_NEWER a x c) = limit c"
  "oldest (set_NEWER a x c) = oldest c" "newest (set_NEWER a x c) = newest c"
  "keymap (set_NEWER a x c) = keymap c" "fresh (set_NEWER a x c) = fresh c"
  by (simp_all add: set_NEWER_def)

lemma fields_set_OLDER [simp]:
  "size_lru (set_OLDER a x c) = size_lru c" "limit (set_OLDER a x c) = limit c"
  "oldest (set_OLDER a x c) = oldest c" "newest (set_OLDER a x c) = newest c"
  "keymap (set_OLDER a x c) = keymap c" "fresh (set_OLDER a x c) = fresh c"
  by (simp_all add: set_OLDER_def)

lemma fields_set_val [simp]:
  "size_lru (set_val a x c) = size_lru c" "limit (set_val a x c) = limit c"
  "oldest (set_val a x c) = oldest c" "newest (set_val a x c) = newest c"
  "keymap (set_val a x c) = keymap c" "fresh (set_val a x c) = fresh c"
  by (simp_all add: set_val_def)

lemma inv_on_order: "inv_on c xs \<Longrightarrow> order c = Some xs"
  by (simp add: order_def inv_on_chain)

lemma inv_on_lru_inv: "inv_on c xs \<Longrightarrow> lru_inv c"
  using lru_inv_iff by blast

lemma inv_on_toJSON_size: "inv_on c xs \<Longrightarrow> toJSON c = Some (pairs c xs)"
  by (simp add: toJSON_def inv_on_toJSON)

lemma inv_on_lookup:
  "inv_on c xs \<Longrightarrow> map_of (keymap c) k = Some a \<longleftrightarrow> a \<in> set xs \<and> key (heap c a) = k"
  by (simp add: inv_on_def index_ok_lookup)

lemma inv_on_Nil: "inv_on c [] \<Longrightarrow> oldest c = None \<and> newest c = None \<and> size_lru c = 0 \<and> keymap c = []"
  by (simp add: inv_on_def index_ok_def)

text \<open>What a call of set does to a well-formed state, case by case.\<close>

lemma set_step_present_inv_on:
  assumes "inv_on c xs" and "map_of (keymap c) k = Some e"
  shows "fst (set_step c k v) = None"
    and "inv_on (snd (set_step c k v)) (remove1 e xs @ [e])"
    and "val (heap (snd (set_step c k v)) e) = v"
proof -
  have e: "e \<in> set xs" using inv_on_lookup[OF assms(1), of k e] assms(2) by simp
  have s: "set_step c k v = (None, markEntryAsUsed e (set_val e v c))"
    using assms(2) by (rule set_step_present)
  show "fst (set_step c k v) = None" by (simp add: s)
  have "inv_on (markEntryAsUsed e (set_val e v c)) (remove1 e xs @ [e])"
    using set_val_inv_on[OF assms(1)] e by (rule mark_inv_on)
  then show "inv_on (snd (set_step c k v)) (remove1 e xs @ [e])" by (simp add: s)
  show "val (heap (snd (set_step c k v)) e) = v"
    by (simp add: s mark_fields)
qed

lemma set_step_room_inv_on:
  assumes "inv_on c xs" and "map_of (keymap c) k = None" and "size_lru c < limit c"
  shows "set_step c k v = (None, appended c k v)"
    and "inv_on (snd (set_step c k v)) (xs @ [fresh c])"
  using assms by (simp_all add: set_step_absent appended_fields appended_inv_on)

lemma set_step_full_inv_on:
  assumes "inv_on c xs" and "map_of (keymap c) k = None" and "limit c \<le> size_lru c"
  shows "set_step c k v = shift (appended c k v)"
    and "inv_on (snd (set_step c k v)) (tl (xs @ [fresh c]))"
    and "fst (set_step c k v) =
           Some (key (heap (appended c k v) (hd (xs @ [fresh c]))),
                 val (heap (appended c k v) (hd (xs @ [fresh c]))))"
proof -
  show s: "set_step c k v = shift (appended c k v)"
    using assms by (simp add: set_step_absent appended_fields)
  have "inv_on (appended c k v) (xs @ [fresh c])" using assms by (simp add: appended_inv_on)
  then have i: "inv_on (appended c k v) (hd (xs @ [fresh c]) # tl (xs @ [fresh c]))" by simp
  show "inv_on (snd (set_step c k v)) (tl (xs @ [fresh c]))"
    unfolding s using i by (rule shift_inv_on(2))
  show "fst (set_step c k v) =
           Some (key (heap (appended c k v) (hd (xs @ [fresh c]))),
                 val (heap (appended c k v) (hd (xs @ [fresh c]))))"
    unfolding s using i by (rule shift_inv_on(1))
qed

lemma appended_old_entries:
  "a < fresh c \<Longrightarrow> key (heap (appended c k v) a) = key (heap c a) \<and> val (heap (appended c k v) a) = val (heap c a)"
  by (simp add: appended_def new_Entry_def Let_def set_NEWER_def set_OLDER_def split: option.splits)

lemma appended_new_entry:
  "key (heap (appended c k v) (fresh c)) = k \<and> val (heap (appended c k v) (fresh c)) = v"
  by (simp add: appended_def new_Entry_def Let_def set_NEWER_def set_OLDER_def split: option.splits)

lemma shift_fields:
  "key (heap (snd (shift c)) a) = key (heap c a)"
  "val (heap (snd (shift c)) a) = val (heap c a)"
  "limit (snd (shift c)) = limit c"
  "fresh (snd (shift c)) = fresh c"
  by (simp_all add: shift_def Let_def set_NEWER_def set_OLDER_def split: option.splits)

lemma shift_size: "oldest c = Some a \<Longrightarrow> size_lru (snd (shift c)) = size_lru c - 1"
  by (simp add: shift_def Let_def set_NEWER_def set_OLDER_def split: option.splits)

lemma shift_keymap:
  "oldest c = Some a \<Longrightarrow> keymap (snd (shift c)) = AList.delete (key (heap c a)) (keymap c)"
  by (simp add: shift_def Let_def set_NEWER_def set_OLDER_def split: option.splits)

lemma shift_empty: "oldest c = None \<Longrightarrow> shift c = (None, c)"
  by (simp add: shift_def)

lemma delete_fields:
  "key (heap (snd (delete c k)) a) = key (heap c a)"
  "val (heap (snd (delete c k)) a) = val (heap c a)"
  "fresh (snd (delete c k)) = fresh c"
  by (simp_all add: delete_def Let_def set_NEWER_def set_OLDER_def split: option.splits)

lemma set_lru_limit: "limit (set_lru c k v) = limit c"
  by (cases "map_of (keymap c) k")
     (simp_all add: set_lru_def set_step_absent set_step_present appended_fields shift_fields mark_fields)

lemma pairs_cong: "(\<And>a. a \<in> set as \<Longrightarrow> key (heap c' a) = key (heap c a) \<and> val (heap c' a) = val (heap c a)) \<Longrightarrow> pairs c' as = pairs c as"
  by (simp add: pairs_def)

section \<open>Claims\<close>

lemma assign_loop_throws:
  "(\<exists>c'. assign_loop c entry lim es = Inl (Overflow, c')) \<longleftrightarrow>
     (\<exists>l. lim = Some l \<and> 0 \<le> l \<and> l < int (length es))"
proof (induction es arbitrary: c entry lim)
  case Nil
  then show ?case by auto
next
  case (Cons p es)
  obtain k v where p: "p = (k, v)" by (cases p)
  show ?case
  proof (cases "lim = Some 0")
    case True
    then show ?thesis by (simp add: p Let_def split_def)
  next
    case False
    then show ?thesis
      by (cases lim) (auto simp add: p Let_def split_def Cons.IH)
  qed
qed

lemma assign_throws_iff:
  "(\<exists>c'. assign c es = Inl (Overflow, c')) \<longleftrightarrow> (0 < limit c \<and> limit c < int (length es))"
  by (auto simp: assign_def assign_loop_throws)

text \<open>
  C5. \<open>assign(entries)\<close> throws the overflow error exactly when the number of pairs
  exceeds a nonzero \<open>limit\<close>: with \<open>limit\<close> pairs or fewer it returns, with more it
  throws, and with \<open>limit\<close> zero it never throws. (\<open>limit\<close> is a non-negative integer, as
  in the data model of the specification.)
\<close>

theorem assign_overflow_iff:
  assumes "0 \<le> limit c"
  shows "(\<exists>c'. assign c es = Inl (Overflow, c')) \<longleftrightarrow> (limit c \<noteq> 0 \<and> limit c < int (length es))"
  using assms by (auto simp: assign_def assign_loop_throws)

theorem assign_overflow_iff_witness:
  "0 \<le> limit (fresh_cache 4) \<and> (\<exists>c'. assign (fresh_cache 4) five = Inl (Overflow, c'))
     \<and> \<not> (\<exists>c'. assign (fresh_cache 4) (take 4 five) = Inl (Overflow, c'))
     \<and> \<not> (\<exists>c'. assign (fresh_cache 0) five = Inl (Overflow, c'))"
  using assign_overflow_iff[of "fresh_cache 4" five]
    assign_overflow_iff[of "fresh_cache 4" "take 4 five"]
    assign_overflow_iff[of "fresh_cache 0" five]
  by (simp add: fresh_cache_def five_def)

lemma lru_inv_nonempty:
  assumes "lru_inv c" and "size_lru c \<noteq> 0"
  obtains a as where "inv_on c (a # as)"
proof -
  obtain xs where xs: "inv_on c xs" using assms(1) lru_inv_iff by blast
  then have "xs \<noteq> []" using assms(2) by (auto simp: inv_on_def)
  then obtain a as where "xs = a # as" by (cases xs) auto
  then show ?thesis using xs that by blast
qed

lemma lru_inv_empty: "lru_inv c \<Longrightarrow> size_lru c = 0 \<Longrightarrow> oldest c = None \<and> newest c = None \<and> keymap c = []"
proof -
  assume "lru_inv c" and z: "size_lru c = 0"
  then obtain xs where xs: "inv_on c xs" using lru_inv_iff by blast
  then have "xs = []" using z by (simp add: inv_on_def)
  then show ?thesis using xs inv_on_Nil by blast
qed

text \<open>
  C8. On a non-empty cache \<open>shift()\<close> returns the key and value of the oldest entry and
  removes that entry: the order of the others is unchanged, the size is one less, the
  key has left the index. On an empty cache it returns nothing and changes nothing.
  Built from four pairs with capacity 4, the cache gives the pairs back in their order
  under four calls, and nothing at the fifth.
\<close>

theorem shift_spec:
  "(lru_inv c \<and> size_lru c \<noteq> 0 \<longrightarrow>
      (\<exists>a as. order c = Some (a # as) \<and> oldest c = Some a \<and>
         fst (shift c) = Some (key (heap c a), val (heap c a)) \<and>
         order (snd (shift c)) = Some as \<and>
         toJSON (snd (shift c)) = Some (pairs c as) \<and>
         size_lru (snd (shift c)) = size_lru c - 1 \<and>
         \<not> has (snd (shift c)) (key (heap c a)) \<and>
         lru_inv (snd (shift c)))) \<and>
   (lru_inv c \<and> size_lru c = 0 \<longrightarrow> shift c = (None, c)) \<and>
   (oldest c = None \<longrightarrow> shift c = (None, c)) \<and>
   (case LRUMap (Some 4) (Some (take 4 five)) blank 0 of
      Inl e \<Rightarrow> []
    | Inr c4 \<Rightarrow> shifts 5 c4) =
     [Some (''adam'', 29), Some (''john'', 26), Some (''angela'', 24), Some (''bob'', 48), None]"
proof (intro conjI impI)
  assume h: "lru_inv c \<and> size_lru c \<noteq> 0"
  then obtain a as where i: "inv_on c (a # as)" using lru_inv_nonempty by blast
  have o: "oldest c = Some a" using i by (simp add: inv_on_def)
  have i': "inv_on (snd (shift c)) as" using i by (rule shift_inv_on(2))
  have "pairs (snd (shift c)) as = pairs c as" by (rule pairs_cong) (simp add: shift_fields)
  then have j: "toJSON (snd (shift c)) = Some (pairs c as)" using inv_on_toJSON_size[OF i'] by simp
  have k: "\<not> has (snd (shift c)) (key (heap c a))"
    by (simp add: has_def shift_keymap[OF o] delete_conv')
  show "\<exists>a as. order c = Some (a # as) \<and> oldest c = Some a \<and>
         fst (shift c) = Some (key (heap c a), val (heap c a)) \<and>
         order (snd (shift c)) = Some as \<and>
         toJSON (snd (shift c)) = Some (pairs c as) \<and>
         size_lru (snd (shift c)) = size_lru c - 1 \<and>
         \<not> has (snd (shift c)) (key (heap c a)) \<and>
         lru_inv (snd (shift c))"
    using inv_on_order[OF i] o shift_inv_on(1)[OF i] inv_on_order[OF i'] j shift_size[OF o] k
      inv_on_lru_inv[OF i']
    by blast
next
  assume "lru_inv c \<and> size_lru c = 0"
  then show "shift c = (None, c)" using lru_inv_empty shift_empty by blast
next
  assume "oldest c = None"
  then show "shift c = (None, c)" by (rule shift_empty)
next
  show "(case LRUMap (Some 4) (Some (take 4 five)) blank 0 of
      Inl e \<Rightarrow> []
    | Inr c4 \<Rightarrow> shifts 5 c4) =
     [Some (''adam'', 29), Some (''john'', 26), Some (''angela'', 24), Some (''bob'', 48), None]"
    by (simp add: LRUMap_def assign_def five_def new_Entry_def Let_def set_NEWER_def set_OLDER_def
        shift_def eval_nat_numeral blank_def)
qed

theorem shift_spec_witness:
  "lru_inv abc \<and> size_lru abc \<noteq> 0 \<and> fst (shift abc) = Some (''a'', 1) \<and>
   toJSON (snd (shift abc)) = Some [(''b'', 2), (''c'', 3)] \<and> lru_inv (snd (shift abc)) \<and>
   shift (fresh_cache 3) = (None, fresh_cache 3)"
proof -
  have h: "lru_inv abc \<and> size_lru abc \<noteq> 0" by code_simp
  have e: "oldest (fresh_cache 3) = None" by (simp add: fresh_cache_def)
  have "lru_inv (snd (shift abc))" using shift_spec[of abc] h by blast
  moreover have "shift (fresh_cache 3) = (None, fresh_cache 3)" using shift_spec[of "fresh_cache 3"] e by blast
  moreover have "fst (shift abc) = Some (''a'', 1)" by code_simp
  moreover have "toJSON (snd (shift abc)) = Some [(''b'', 2), (''c'', 3)]" by code_simp
  ultimately show ?thesis using h by blast
qed

lemma delete_links_kept:
  assumes "inv_on c xs" and "map_of (keymap c) k = Some e"
  shows "newer (heap (snd (delete c k)) e) = newer (heap c e)
       \<and> older (heap (snd (delete c k)) e) = older (heap c e)"
proof -
  have e: "e \<in> set xs" using inv_on_lookup[OF assms(1), of k e] assms(2) by simp
  then obtain us vs where xs: "xs = us @ e # vs" by (meson split_list)
  have n: "newer (heap c e) \<noteq> Some e"
    using assms(1) unfolding xs by (cases vs) (auto simp: inv_on_def)
  have p: "older (heap c e) \<noteq> Some e"
    using assms(1) unfolding xs by (cases us rule: rev_cases) (auto simp: inv_on_def)
  show ?thesis using assms(2) n p
    by (auto simp: delete_def Let_def split: option.splits)
qed

text \<open>
  C7. \<open>delete(key)\<close> of a key in the index removes its entry wherever it stands: the
  other entries keep their order (the neighbours of the removed entry are linked to
  each other), the key leaves the index and no other key does, \<open>size\<close> is one less and
  the stored value is returned. For a key not in the index it returns nothing and the
  state is unchanged.
\<close>

theorem delete_spec:
  "(lru_inv c \<and> map_of (keymap c) k = Some e \<longrightarrow>
      (\<exists>xs. order c = Some xs \<and> e \<in> set xs \<and>
         fst (delete c k) = Some (val (heap c e)) \<and>
         order (snd (delete c k)) = Some (remove1 e xs) \<and>
         toJSON (snd (delete c k)) = Some (pairs c (remove1 e xs)) \<and>
         size_lru (snd (delete c k)) = size_lru c - 1 \<and>
         \<not> has (snd (delete c k)) k \<and>
         (\<forall>k'. k' \<noteq> k \<longrightarrow> has (snd (delete c k)) k' = has c k') \<and>
         lru_inv (snd (delete c k)))) \<and>
   (map_of (keymap c) k = None \<longrightarrow> delete c k = (None, c))"
proof (intro conjI impI)
  assume h: "lru_inv c \<and> map_of (keymap c) k = Some e"
  then obtain xs where i: "inv_on c xs" using lru_inv_iff by blast
  have m: "map_of (keymap c) k = Some e" using h by simp
  have e: "e \<in> set xs" and ke: "key (heap c e) = k"
    using inv_on_lookup[OF i, of k e] m by simp_all
  obtain us vs where xs: "xs = us @ e # vs" and u: "e \<notin> set us"
    using e by (meson split_list_first)
  have r: "remove1 e xs = us @ vs" using xs u by (simp add: remove1_append)
  have i': "inv_on (snd (delete c k)) (remove1 e xs)"
    unfolding r using i m unfolding xs by (rule delete_inv_on)
  have "pairs (snd (delete c k)) (remove1 e xs) = pairs c (remove1 e xs)"
    by (rule pairs_cong) (simp add: delete_fields)
  then have j: "toJSON (snd (delete c k)) = Some (pairs c (remove1 e xs))"
    using inv_on_toJSON_size[OF i'] by simp
  have km: "keymap (snd (delete c k)) = AList.delete k (keymap c)"
    using delete_result(3)[OF m] ke by simp
  have a: "\<not> has (snd (delete c k)) k" by (simp add: has_def km delete_conv')
  have b: "\<forall>k'. k' \<noteq> k \<longrightarrow> has (snd (delete c k)) k' = has c k'"
    by (simp add: has_def km delete_conv')
  show "\<exists>xs. order c = Some xs \<and> e \<in> set xs \<and>
         fst (delete c k) = Some (val (heap c e)) \<and>
         order (snd (delete c k)) = Some (remove1 e xs) \<and>
         toJSON (snd (delete c k)) = Some (pairs c (remove1 e xs)) \<and>
         size_lru (snd (delete c k)) = size_lru c - 1 \<and>
         \<not> has (snd (delete c k)) k \<and>
         (\<forall>k'. k' \<noteq> k \<longrightarrow> has (snd (delete c k)) k' = has c k') \<and>
         lru_inv (snd (delete c k))"
    using inv_on_order[OF i] e delete_result(1)[OF m] inv_on_order[OF i'] j delete_result(2)[OF m] a b
      inv_on_lru_inv[OF i']
    by blast
next
  assume "map_of (keymap c) k = None"
  then show "delete c k = (None, c)" by (rule delete_absent)
qed

theorem delete_spec_witness:
  "lru_inv abc \<and> map_of (keymap abc) ''b'' = Some 1 \<and>
   fst (delete abc ''b'') = Some 2 \<and>
   toJSON (snd (delete abc ''b'')) = Some [(''a'', 1), (''c'', 3)] \<and>
   size_lru (snd (delete abc ''b'')) = 2 \<and>
   lru_inv (snd (delete abc ''b'')) \<and>
   map_of (keymap abc) ''z'' = None \<and> delete abc ''z'' = (None, abc)"
proof -
  have h: "lru_inv abc \<and> map_of (keymap abc) ''b'' = Some 1" by code_simp
  have z: "map_of (keymap abc) ''z'' = None" by code_simp
  have "lru_inv (snd (delete abc ''b''))" using delete_spec[of abc "''b''" 1] h by blast
  moreover have "delete abc ''z'' = (None, abc)" using delete_spec[of abc "''z''"] z by blast
  moreover have "fst (delete abc ''b'') = Some 2" by code_simp
  moreover have "toJSON (snd (delete abc ''b'')) = Some [(''a'', 1), (''c'', 3)]" by code_simp
  moreover have "size_lru (snd (delete abc ''b'')) = 2" by code_simp
  ultimately show ?thesis using h z by blast
qed

lemma get_absent: "map_of (keymap c) k = None \<Longrightarrow> get c k = (None, c)"
  by (simp add: get_def)

lemma get_present:
  "map_of (keymap c) k = Some e \<Longrightarrow> get c k = (Some (val (heap c e)), markEntryAsUsed e c)"
  by (simp add: get_def Let_def mark_fields)

lemma set_lru_present_lookup:
  assumes "map_of (keymap c) k = Some e"
  shows "newest (set_lru c k v) = Some e" and "fst (get (set_lru c k v) k) = Some v"
proof -
  have s: "set_lru c k v = markEntryAsUsed e (set_val e v c)"
    using assms by (simp add: set_lru_def set_step_present)
  show "newest (set_lru c k v) = Some e" by (simp add: s mark_fields)
  have "map_of (keymap (set_lru c k v)) k = Some e" using assms by (simp add: s mark_fields)
  then show "fst (get (set_lru c k v) k) = Some v"
    by (simp add: get_present) (simp add: s mark_fields)
qed

lemma set_lru_absent_lookup:
  assumes "inv_on c xs" and "map_of (keymap c) k = None" and "1 \<le> limit c"
  shows "fst (get (set_lru c k v) k) = Some v"
proof -
  have "map_of (keymap (set_lru c k v)) k = Some (fresh c) \<and> val (heap (set_lru c k v) (fresh c)) = v"
  proof (cases "size_lru c < limit c")
    case True
    then have "set_lru c k v = appended c k v"
      using assms by (simp add: set_lru_def set_step_room_inv_on(1))
    then show ?thesis by (simp add: appended_fields appended_new_entry update_conv')
  next
    case False
    then have f: "limit c \<le> size_lru c" by simp
    have s: "set_lru c k v = snd (shift (appended c k v))"
      using assms f by (simp add: set_lru_def set_step_full_inv_on(1))
    have "xs \<noteq> []" using assms(1,3) f by (auto simp: inv_on_def)
    then obtain a as where xs: "xs = a # as" by (cases xs) auto
    have i: "inv_on (appended c k v) (a # as @ [fresh c])"
      using appended_inv_on[OF assms(1,2), of v] xs by simp
    then have o: "oldest (appended c k v) = Some a" by (simp add: inv_on_def)
    have a: "a < fresh c" "map_of (keymap c) (key (heap c a)) = Some a"
      using assms(1) inv_on_lookup[OF assms(1), of "key (heap c a)" a] xs by (auto simp: inv_on_def)
    then have ne: "key (heap c a) \<noteq> k" using assms(2) by auto
    have "key (heap (appended c k v) a) = key (heap c a)" using a(1) by (simp add: appended_old_entries)
    then have "keymap (set_lru c k v) = AList.delete (key (heap c a)) (AList.update k (fresh c) (keymap c))"
      by (simp add: s shift_keymap[OF o] appended_fields)
    then show ?thesis using ne by (simp add: delete_conv' update_conv' s shift_fields appended_new_entry)
  qed
  then show ?thesis by (simp add: get_present)
qed

text \<open>
  C3. \<open>get(key)\<close> of a key in the index returns the value stored for it and makes its
  entry the newest, and so does \<open>set\<close> of that key (which stores the new value first);
  the other entries keep their order. What \<open>get\<close> returns is the value last set: a \<open>get\<close>
  right after \<open>set(k, v)\<close> returns \<open>v\<close> (for a new key when the capacity is at
  least 1). For a key not in the index \<open>get\<close> returns nothing and leaves the state as
  it was.
\<close>

theorem get_spec:
  "(map_of (keymap c) k = Some e \<longrightarrow>
      fst (get c k) = Some (val (heap c e)) \<and> newest (snd (get c k)) = Some e \<and>
      newest (set_lru c k v) = Some e \<and> fst (get (set_lru c k v) k) = Some v) \<and>
   (lru_inv c \<and> map_of (keymap c) k = Some e \<longrightarrow>
      (\<exists>xs. order c = Some xs \<and> e \<in> set xs \<and>
         order (snd (get c k)) = Some (remove1 e xs @ [e]) \<and>
         toJSON (snd (get c k)) = Some (pairs c (remove1 e xs @ [e])) \<and>
         lru_inv (snd (get c k)))) \<and>
   (lru_inv c \<and> 1 \<le> limit c \<longrightarrow> fst (get (set_lru c k v) k) = Some v) \<and>
   (map_of (keymap c) k = None \<longrightarrow> get c k = (None, c))"
proof (intro conjI impI)
  assume m: "map_of (keymap c) k = Some e"
  show "fst (get c k) = Some (val (heap c e))" using m by (simp add: get_present)
  show "newest (snd (get c k)) = Some e" using m by (simp add: get_present mark_fields)
  show "newest (set_lru c k v) = Some e" using m by (rule set_lru_present_lookup(1))
  show "fst (get (set_lru c k v) k) = Some v" using m by (rule set_lru_present_lookup(2))
next
  assume h: "lru_inv c \<and> map_of (keymap c) k = Some e"
  then obtain xs where i: "inv_on c xs" using lru_inv_iff by blast
  have m: "map_of (keymap c) k = Some e" using h by simp
  have e: "e \<in> set xs" using inv_on_lookup[OF i, of k e] m by simp
  have g: "snd (get c k) = markEntryAsUsed e c" using m by (simp add: get_present)
  have i': "inv_on (snd (get c k)) (remove1 e xs @ [e])"
    unfolding g using i e by (rule mark_inv_on)
  have "pairs (snd (get c k)) (remove1 e xs @ [e]) = pairs c (remove1 e xs @ [e])"
    unfolding g by (rule pairs_cong) (simp add: mark_fields)
  then have j: "toJSON (snd (get c k)) = Some (pairs c (remove1 e xs @ [e]))"
    using inv_on_toJSON_size[OF i'] by simp
  show "\<exists>xs. order c = Some xs \<and> e \<in> set xs \<and>
         order (snd (get c k)) = Some (remove1 e xs @ [e]) \<and>
         toJSON (snd (get c k)) = Some (pairs c (remove1 e xs @ [e])) \<and>
         lru_inv (snd (get c k))"
    using inv_on_order[OF i] e inv_on_order[OF i'] j inv_on_lru_inv[OF i'] by blast
next
  assume h: "lru_inv c \<and> 1 \<le> limit c"
  then obtain xs where i: "inv_on c xs" using lru_inv_iff by blast
  show "fst (get (set_lru c k v) k) = Some v"
  proof (cases "map_of (keymap c) k")
    case None
    then show ?thesis using i h by (simp add: set_lru_absent_lookup)
  next
    case (Some e)
    then show ?thesis by (rule set_lru_present_lookup(2))
  qed
next
  assume "map_of (keymap c) k = None"
  then show "get c k = (None, c)" by (rule get_absent)
qed

theorem get_spec_witness:
  "lru_inv abc \<and> 1 \<le> limit abc \<and> map_of (keymap abc) ''a'' = Some 0 \<and>
   fst (get abc ''a'') = Some 1 \<and> newest (snd (get abc ''a'')) = Some 0 \<and>
   toJSON (snd (get abc ''a'')) = Some [(''b'', 2), (''c'', 3), (''a'', 1)] \<and>
   newest (set_lru abc ''a'' 7) = Some 0 \<and> fst (get (set_lru abc ''a'' 7) ''a'') = Some 7 \<and>
   fst (get (set_lru abc ''d'' 4) ''d'') = Some 4 \<and>
   lru_inv (snd (get abc ''a'')) \<and>
   map_of (keymap abc) ''z'' = None \<and> get abc ''z'' = (None, abc)"
proof -
  have h: "lru_inv abc \<and> 1 \<le> limit abc" and m: "map_of (keymap abc) ''a'' = Some 0" by code_simp+
  have z: "map_of (keymap abc) ''z'' = None" by code_simp
  have v: "val (heap abc 0) = 1" by code_simp
  have t: "toJSON (snd (get abc ''a'')) = Some [(''b'', 2), (''c'', 3), (''a'', 1)]" by code_simp
  have "fst (get abc ''a'') = Some 1 \<and> newest (snd (get abc ''a'')) = Some 0 \<and>
      newest (set_lru abc ''a'' 7) = Some 0 \<and> fst (get (set_lru abc ''a'' 7) ''a'') = Some 7"
    using get_spec[of abc "''a''" 0 7] m v by simp
  moreover have "lru_inv (snd (get abc ''a''))" using get_spec[of abc "''a''" 0 7] h m by blast
  moreover have "fst (get (set_lru abc ''d'' 4) ''d'') = Some 4" using get_spec[of abc "''d''" 0 4] h by blast
  moreover have "get abc ''z'' = (None, abc)" using get_spec[of abc "''z''" 0 0] z by blast
  ultimately show ?thesis using h m z t by blast
qed

text \<open>
  C1. On a well-formed cache with a nonzero limit and \<open>size = limit\<close>, \<open>set\<close> of a key
  that is not in the index removes exactly the oldest entry (it is what the call of
  \<open>shift()\<close> returns, and its key leaves the index), the other entries keep their
  order and the new entry comes last. With capacity 3, after \<open>set\<close> of a, b, c,
  \<open>get(a)\<close> and \<open>set(d, 4)\<close>, the entry evicted is b and the order is c, a, d.
\<close>

theorem set_full_evicts_oldest:
  "(lru_inv c \<and> limit c \<noteq> 0 \<and> size_lru c = limit c \<and> map_of (keymap c) k = None \<longrightarrow>
      (\<exists>a as. order c = Some (a # as) \<and> oldest c = Some a \<and>
         toJSON c = Some (pairs c (a # as)) \<and>
         fst (set_step c k v) = Some (key (heap c a), val (heap c a)) \<and>
         order (set_lru c k v) = Some (as @ [fresh c]) \<and>
         toJSON (set_lru c k v) = Some (pairs c as @ [(k, v)]) \<and>
         size_lru (set_lru c k v) = size_lru c \<and>
         \<not> has (set_lru c k v) (key (heap c a)) \<and> has (set_lru c k v) k \<and>
         lru_inv (set_lru c k v))) \<and>
   toJSON abc = Some [(''a'', 1), (''b'', 2), (''c'', 3)] \<and>
   toJSON (snd (get abc ''a'')) = Some [(''b'', 2), (''c'', 3), (''a'', 1)] \<and>
   fst (set_step (snd (get abc ''a'')) ''d'' 4) = Some (''b'', 2) \<and>
   toJSON (set_lru (snd (get abc ''a'')) ''d'' 4) = Some [(''c'', 3), (''a'', 1), (''d'', 4)]"
proof (intro conjI impI)
  assume h: "lru_inv c \<and> limit c \<noteq> 0 \<and> size_lru c = limit c \<and> map_of (keymap c) k = None"
  then have "size_lru c \<noteq> 0" by simp
  then obtain a as where i: "inv_on c (a # as)" using h lru_inv_nonempty by blast
  have m: "map_of (keymap c) k = None" and f: "limit c \<le> size_lru c" using h by simp_all
  have o: "oldest c = Some a" using i by (simp add: inv_on_def)
  have lt: "a < fresh c" "\<forall>b\<in>set as. b < fresh c" using i by (simp_all add: inv_on_def)
  let ?c = "set_lru c k v"
  have s: "?c = snd (shift (appended c k v))"
    using i m f by (simp add: set_lru_def set_step_full_inv_on(1))
  have ia: "inv_on (appended c k v) (a # as @ [fresh c])"
    using appended_inv_on[OF i m, of v] by simp
  have oa: "oldest (appended c k v) = Some a" using ia by (simp add: inv_on_def)
  have i': "inv_on ?c (as @ [fresh c])"
    using set_step_full_inv_on(2)[OF i m f, of v] by (simp add: set_lru_def)
  have r: "fst (set_step c k v) = Some (key (heap c a), val (heap c a))"
    using set_step_full_inv_on(3)[OF i m f, of v] lt(1) by (simp add: appended_old_entries)
  have "pairs ?c (as @ [fresh c]) = pairs (appended c k v) (as @ [fresh c])"
    unfolding s by (rule pairs_cong) (simp add: shift_fields)
  also have "\<dots> = pairs c as @ [(k, v)]"
    using lt(2) by (simp add: pairs_def appended_old_entries appended_new_entry)
  finally have j: "toJSON ?c = Some (pairs c as @ [(k, v)])"
    using inv_on_toJSON_size[OF i'] by simp
  have sz: "size_lru ?c = size_lru c"
    by (simp add: s shift_size[OF oa] appended_fields)
  have ka: "key (heap (appended c k v) a) = key (heap c a)" using lt(1) by (simp add: appended_old_entries)
  have km: "keymap ?c = AList.delete (key (heap c a)) (AList.update k (fresh c) (keymap c))"
    by (simp add: s shift_keymap[OF oa] appended_fields ka)
  have "map_of (keymap c) (key (heap c a)) = Some a"
    using inv_on_lookup[OF i, of "key (heap c a)" a] by simp
  then have ne: "key (heap c a) \<noteq> k" using m by auto
  have h1: "\<not> has ?c (key (heap c a))" by (simp add: has_def km delete_conv')
  have h2: "has ?c k" using ne by (simp add: has_def km delete_conv' update_conv')
  show "\<exists>a as. order c = Some (a # as) \<and> oldest c = Some a \<and>
         toJSON c = Some (pairs c (a # as)) \<and>
         fst (set_step c k v) = Some (key (heap c a), val (heap c a)) \<and>
         order (set_lru c k v) = Some (as @ [fresh c]) \<and>
         toJSON (set_lru c k v) = Some (pairs c as @ [(k, v)]) \<and>
         size_lru (set_lru c k v) = size_lru c \<and>
         \<not> has (set_lru c k v) (key (heap c a)) \<and> has (set_lru c k v) k \<and>
         lru_inv (set_lru c k v)"
    using inv_on_order[OF i] o inv_on_toJSON_size[OF i] r inv_on_order[OF i'] j sz h1 h2
      inv_on_lru_inv[OF i']
    by blast
next
  show "toJSON abc = Some [(''a'', 1), (''b'', 2), (''c'', 3)]" by code_simp
  show "toJSON (snd (get abc ''a'')) = Some [(''b'', 2), (''c'', 3), (''a'', 1)]" by code_simp
  show "fst (set_step (snd (get abc ''a'')) ''d'' 4) = Some (''b'', 2)" by code_simp
  show "toJSON (set_lru (snd (get abc ''a'')) ''d'' 4) = Some [(''c'', 3), (''a'', 1), (''d'', 4)]"
    by code_simp
qed

theorem set_full_evicts_oldest_witness:
  "lru_inv abc \<and> limit abc \<noteq> 0 \<and> size_lru abc = limit abc \<and> map_of (keymap abc) ''d'' = None \<and>
   order abc = Some [0, 1, 2] \<and> fresh abc = 3 \<and>
   fst (set_step abc ''d'' 4) = Some (''a'', 1) \<and>
   order (set_lru abc ''d'' 4) = Some [1, 2, 3] \<and>
   toJSON (set_lru abc ''d'' 4) = Some [(''b'', 2), (''c'', 3), (''d'', 4)] \<and>
   lru_inv (set_lru abc ''d'' 4)"
proof -
  have h: "lru_inv abc \<and> limit abc \<noteq> 0 \<and> size_lru abc = limit abc \<and> map_of (keymap abc) ''d'' = None"
    by code_simp
  have o: "order abc = Some [0, 1, 2]" "fresh abc = 3" by code_simp+
  have p: "key (heap abc 0) = ''a''" "val (heap abc 0) = 1" "pairs abc [1, 2] = [(''b'', 2), (''c'', 3)]"
    by code_simp+
  obtain a as where w: "order abc = Some (a # as)"
      "fst (set_step abc ''d'' 4) = Some (key (heap abc a), val (heap abc a))"
      "order (set_lru abc ''d'' 4) = Some (as @ [fresh abc])"
      "toJSON (set_lru abc ''d'' 4) = Some (pairs abc as @ [(''d'', 4)])"
      "lru_inv (set_lru abc ''d'' 4)"
    using set_full_evicts_oldest[of abc "''d''" 4] h by blast
  have "a = 0" "as = [1, 2]" using w(1) o(1) by simp_all
  then show ?thesis using w h o p by simp
qed

text \<open>
  C10, the claim as stated fails for \<open>delete\<close>: deleting b from the cache a, b, c leaves
  the removed entry (at address 1) with both its links, to c and to a.
\<close>

theorem delete_keeps_links_counterexample:
  "map_of (keymap abc) ''b'' = Some 1 \<and>
   newer (heap (snd (delete abc ''b'')) 1) = Some 2 \<and>
   older (heap (snd (delete abc ''b'')) 1) = Some 0 \<and>
   \<not> (newer (heap (snd (delete abc ''b'')) 1) = None \<and> older (heap (snd (delete abc ''b'')) 1) = None)"
  by code_simp

lemma shift_links_cleared:
  "oldest c = Some a \<Longrightarrow>
     newer (heap (snd (shift c)) a) = None \<and> older (heap (snd (shift c)) a) = None"
  by (simp add: shift_def Let_def split: option.splits)

text \<open>
  C10 as amended. \<open>shift()\<close> clears both links of the entry it removes, also when
  \<open>set\<close> calls it to evict; \<open>delete\<close> links the neighbours of the removed entry to each
  other and leaves the links of the removed entry itself as they were.
\<close>

theorem unlink_spec:
  "(oldest c = Some a \<longrightarrow>
      newer (heap (snd (shift c)) a) = None \<and> older (heap (snd (shift c)) a) = None) \<and>
   (lru_inv c \<and> oldest c = Some a \<and> map_of (keymap c) k = None \<and> limit c \<le> size_lru c \<longrightarrow>
      newer (heap (set_lru c k v) a) = None \<and> older (heap (set_lru c k v) a) = None) \<and>
   (lru_inv c \<and> map_of (keymap c) k = Some e \<longrightarrow>
      newer (heap (snd (delete c k)) e) = newer (heap c e) \<and>
      older (heap (snd (delete c k)) e) = older (heap c e))"
proof (intro conjI impI)
  assume "oldest c = Some a"
  then show "newer (heap (snd (shift c)) a) = None" "older (heap (snd (shift c)) a) = None"
    using shift_links_cleared by blast+
next
  assume h: "lru_inv c \<and> oldest c = Some a \<and> map_of (keymap c) k = None \<and> limit c \<le> size_lru c"
  then obtain xs where i: "inv_on c xs" using lru_inv_iff by blast
  have m: "map_of (keymap c) k = None" and f: "limit c \<le> size_lru c" and o: "oldest c = Some a"
    using h by simp_all
  have "xs \<noteq> []" using i o by (auto simp: inv_on_def)
  then obtain as where xs: "xs = a # as" using i o by (cases xs) (auto simp: inv_on_def)
  have "inv_on (appended c k v) (a # as @ [fresh c])"
    using appended_inv_on[OF i m, of v] xs by simp
  then have oa: "oldest (appended c k v) = Some a" by (simp add: inv_on_def)
  have s: "set_lru c k v = snd (shift (appended c k v))"
    using i m f by (simp add: set_lru_def set_step_full_inv_on(1))
  show "newer (heap (set_lru c k v) a) = None" "older (heap (set_lru c k v) a) = None"
    unfolding s using shift_links_cleared[OF oa] by simp_all
next
  assume h: "lru_inv c \<and> map_of (keymap c) k = Some e"
  then obtain xs where i: "inv_on c xs" using lru_inv_iff by blast
  show "newer (heap (snd (delete c k)) e) = newer (heap c e)"
    "older (heap (snd (delete c k)) e) = older (heap c e)"
    using delete_links_kept[OF i, of k e] h by simp_all
qed

theorem unlink_spec_witness:
  "oldest abc = Some 0 \<and> lru_inv abc \<and> map_of (keymap abc) ''d'' = None \<and> limit abc \<le> size_lru abc \<and>
   map_of (keymap abc) ''b'' = Some 1 \<and>
   newer (heap (snd (shift abc)) 0) = None \<and> older (heap (snd (shift abc)) 0) = None \<and>
   newer (heap (set_lru abc ''d'' 4) 0) = None \<and> older (heap (set_lru abc ''d'' 4) 0) = None \<and>
   newer (heap (snd (delete abc ''b'')) 1) = newer (heap abc 1) \<and>
   older (heap (snd (delete abc ''b'')) 1) = older (heap abc 1)"
proof -
  have h: "oldest abc = Some 0" "lru_inv abc" "map_of (keymap abc) ''d'' = None"
    "limit abc \<le> size_lru abc" "map_of (keymap abc) ''b'' = Some 1"
    by code_simp+
  show ?thesis using unlink_spec[of abc 0 "''d''" 4 1] unlink_spec[of abc 0 "''b''" 4 1] h by blast
qed

lemma LRUMap_no_entries:
  "LRUMap lim None h n =
     Inr \<lparr>size_lru = 0, limit = (case lim of None \<Rightarrow> 0 | Some l \<Rightarrow> l),
          oldest = None, newest = None, keymap = [], heap = h, fresh = n\<rparr>"
  by (simp add: LRUMap_def)

lemma inv_on_new: "inv_on \<lparr>size_lru = 0, limit = l, oldest = None, newest = None, keymap = [], heap = h, fresh = n\<rparr> []"
  by (simp add: inv_on_def index_ok_def)

lemma LRUMap_no_entries_inv:
  assumes "LRUMap lim None h n = Inr c"
  shows "inv_on c []" and "size_lru c = 0"
  using assms by (auto simp: LRUMap_no_entries inv_on_new)

lemma assign_loop_fields:
  "assign_loop c entry lim es = Inr c' \<Longrightarrow>
     limit c' = limit c \<and> size_lru c' = int (length (keymap c'))"
proof (induction es arbitrary: c entry lim)
  case Nil
  then show ?case by auto
next
  case (Cons p es)
  obtain k v where p: "p = (k, v)" by (cases p)
  show ?case
  proof (cases "lim = Some 0")
    case True
    then show ?thesis using Cons.prems by (simp add: p Let_def split_def)
  next
    case False
    then show ?thesis using Cons.prems Cons.IH
      by (cases entry) (simp_all add: p Let_def split_def new_Entry_def)
  qed
qed

lemma assign_loop_unbounded: "\<exists>c'. assign_loop c entry None es = Inr c'"
proof (induction es arbitrary: c entry)
  case Nil
  then show ?case by simp
next
  case (Cons p es)
  then show ?case by (cases p) (simp add: Let_def split_def)
qed

text \<open>
  C9, the claim as stated fails: on the cache \<open>new LRUMap(0)\<close> builds, \<open>set\<close> of a new
  key links the entry and evicts it in the same call, so the cache does not retain it.
\<close>

theorem limit_zero_set_counterexample:
  "LRUMap (Some 0) None blank 0 = Inr (fresh_cache 0) \<and>
   fst (set_step (fresh_cache 0) ''a'' 1) = Some (''a'', 1) \<and>
   \<not> has (set_lru (fresh_cache 0) ''a'' 1) ''a'' \<and>
   size_lru (set_lru (fresh_cache 0) ''a'' 1) = 0 \<and>
   toJSON (set_lru (fresh_cache 0) ''a'' 1) = Some []"
  by (simp add: LRUMap_def fresh_cache_def set_lru_def set_step_def shift_def new_Entry_def
      has_def toJSON_def toJSON_upto_def pairs_def Let_def)

text \<open>
  C9 as amended. A limit of 0 means unbounded only for \<open>assign\<close>: \<open>assign\<close> on a cache
  with limit 0 never throws, and the constructor, given entries and no limit (or 0),
  sets the limit to the size loaded. On a cache built with limit 0 and no entries,
  \<open>set\<close> of any key evicts the entry it has just added: the cache stays empty.
\<close>

theorem limit_zero_spec:
  "(LRUMap lim None h n = Inr c \<and> limit c = 0 \<longrightarrow>
      fst (set_step c k v) = Some (k, v) \<and> \<not> has (set_lru c k v) k \<and>
      size_lru (set_lru c k v) = 0 \<and> toJSON (set_lru c k v) = Some [] \<and>
      oldest (set_lru c k v) = None \<and> newest (set_lru c k v) = None \<and>
      lru_inv (set_lru c k v)) \<and>
   (limit c = 0 \<longrightarrow> (\<exists>c'. assign c es = Inr c')) \<and>
   ((lim = None \<or> lim = Some 0) \<and> LRUMap lim (Some es) h n = Inr c \<longrightarrow> limit c = size_lru c)"
proof (intro conjI impI)
  assume h: "LRUMap lim None h n = Inr c \<and> limit c = 0"
  then have i: "inv_on c []" and z: "size_lru c = 0" using LRUMap_no_entries_inv by blast+
  have m: "map_of (keymap c) k = None" using i by (simp add: inv_on_def index_ok_def)
  have f: "limit c \<le> size_lru c" using h z by simp
  have i': "inv_on (set_lru c k v) []"
    using set_step_full_inv_on(2)[OF i m f, of v] by (simp add: set_lru_def)
  show "fst (set_step c k v) = Some (k, v)"
    using set_step_full_inv_on(3)[OF i m f, of v] by (simp add: appended_new_entry)
  show "\<not> has (set_lru c k v) k" using inv_on_Nil[OF i'] by (simp add: has_def)
  show "size_lru (set_lru c k v) = 0" using inv_on_Nil[OF i'] by simp
  show "toJSON (set_lru c k v) = Some []" using inv_on_toJSON_size[OF i'] by (simp add: pairs_def)
  show "oldest (set_lru c k v) = None" "newest (set_lru c k v) = None"
    using inv_on_Nil[OF i'] by simp_all
  show "lru_inv (set_lru c k v)" using i' by (rule inv_on_lru_inv)
next
  assume "limit c = 0"
  then show "\<exists>c'. assign c es = Inr c'" by (simp add: assign_def assign_loop_unbounded)
next
  assume h: "(lim = None \<or> lim = Some 0) \<and> LRUMap lim (Some es) h n = Inr c"
  let ?c0 = "\<lparr>size_lru = 0, limit = 0, oldest = None, newest = None, keymap = [], heap = h, fresh = n\<rparr>"
  have l: "(case lim of None \<Rightarrow> 0 | Some l \<Rightarrow> l) = (0::int)" using h by auto
  obtain c1 where a: "assign ?c0 es = Inr c1" using assign_loop_unbounded by (fastforce simp: assign_def)
  then have "limit c1 = 0" using assign_loop_fields[of _ None None es c1] by (simp add: assign_def)
  then have "c = c1\<lparr>limit := size_lru c1\<rparr>" using h a l by (simp add: LRUMap_def)
  then show "limit c = size_lru c" by simp
qed

theorem limit_zero_spec_witness:
  "LRUMap (Some 0) None blank 0 = Inr (fresh_cache 0) \<and> limit (fresh_cache 0) = 0 \<and>
   fst (set_step (fresh_cache 0) ''a'' 1) = Some (''a'', 1) \<and>
   size_lru (set_lru (fresh_cache 0) ''a'' 1) = 0 \<and>
   (\<exists>c'. assign (fresh_cache 0) five = Inr c') \<and>
   (\<exists>c. LRUMap None (Some five) blank 0 = Inr c \<and> limit c = 5 \<and> size_lru c = 5)"
proof -
  have h: "LRUMap (Some 0) None blank 0 = Inr (fresh_cache 0) \<and> limit (fresh_cache 0) = 0"
    by (simp add: LRUMap_def fresh_cache_def)
  have "fst (set_step (fresh_cache 0) ''a'' 1) = Some (''a'', 1) \<and>
      size_lru (set_lru (fresh_cache 0) ''a'' 1) = 0"
    using limit_zero_spec[of "Some 0" blank 0 "fresh_cache 0" "''a''" 1] h by blast
  moreover have "\<exists>c'. assign (fresh_cache 0) five = Inr c'"
    using limit_zero_spec[of "Some 0" blank 0 "fresh_cache 0" "''a''" 1 five] h by blast
  moreover have "\<exists>c. LRUMap None (Some five) blank 0 = Inr c \<and> limit c = 5 \<and> size_lru c = 5"
  proof -
    obtain c where c: "LRUMap None (Some five) blank 0 = Inr c" "size_lru c = 5"
      by (simp add: LRUMap_def assign_def five_def new_Entry_def Let_def)
    then have "limit c = size_lru c"
      using limit_zero_spec[of None blank 0 c "''a''" 1 five] by blast
    then show ?thesis using c by simp
  qed
  ultimately show ?thesis using h by blast
qed

lemma assign_loop_overflow_state:
  "assign_loop c entry (Some l) es = Inl (err, c') \<Longrightarrow> 0 \<le> l \<Longrightarrow>
     size_lru c' = size_lru c \<and> limit c' = limit c \<and> newest c' = newest c \<and>
     oldest c' = (case entry of None \<Rightarrow> Some (fresh c) | Some p \<Rightarrow> oldest c) \<and>
     fst ` set (keymap c') = fst ` set (keymap c) \<union> fst ` set (take (nat l + 1) es)"
proof (induction es arbitrary: c entry l)
  case Nil
  then show ?case by simp
next
  case (Cons p es)
  obtain k v where p: "p = (k, v)" by (cases p)
  let ?c3 = "(case entry of
                None \<Rightarrow> (snd (new_Entry k v c))\<lparr>keymap := AList.update k (fresh c) (keymap c), oldest := Some (fresh c)\<rparr>
              | Some q \<Rightarrow> set_OLDER (fresh c) (Some q) (set_NEWER q (Some (fresh c))
                  ((snd (new_Entry k v c))\<lparr>keymap := AList.update k (fresh c) (keymap c)\<rparr>)))"
  have c3: "size_lru ?c3 = size_lru c" "limit ?c3 = limit c" "newest ?c3 = newest c"
    "oldest ?c3 = (case entry of None \<Rightarrow> Some (fresh c) | Some p \<Rightarrow> oldest c)"
    "keymap ?c3 = AList.update k (fresh c) (keymap c)"
    by (cases entry; simp add: new_Entry_def)+
  show ?case
  proof (cases "l = 0")
    case True
    have "c' = ?c3" using Cons.prems(1) True
      by (cases entry) (simp_all add: p Let_def split_def new_Entry_def)
    then show ?thesis using c3 True by (simp add: p dom_update)
  next
    case False
    then have l: "0 \<le> l - 1" "nat l = Suc (nat (l - 1))" using Cons.prems(2) by auto
    have r: "assign_loop ?c3 (Some (fresh c)) (Some (l - 1)) es = Inl (err, c')"
      using Cons.prems(1) False
      by (cases entry) (simp_all add: p Let_def split_def new_Entry_def)
    have "fst ` set (keymap c') = fst ` set (keymap ?c3) \<union> fst ` set (take (nat (l - 1) + 1) es)"
      using Cons.IH[OF r l(1)] by blast
    then have "fst ` set (keymap c') = fst ` set (keymap c) \<union> fst ` set (take (nat l + 1) (p # es))"
      unfolding c3(5) dom_update l(2) by (simp add: p)
    then show ?thesis
      using Cons.IH[OF r l(1)] c3 by simp
  qed
qed

text \<open>
  C6, the claim as stated fails: \<open>assign\<close> of four pairs on the full cache a, b, c of
  limit 3 throws, and leaves the four new keys in the index, \<open>oldest\<close> at the first new
  entry with a chain of four entries behind it, and \<open>size\<close> and \<open>newest\<close> as they were.
\<close>

theorem assign_overflow_counterexample:
  "(case assign abc (take 4 five) of
      Inr c' \<Rightarrow> False
    | Inl (err, c') \<Rightarrow>
        map fst (keymap c') = [''adam'', ''john'', ''angela'', ''bob''] \<and>
        has c' ''adam'' \<and> size_lru c' = 3 \<and> oldest c' = Some 3 \<and> newest c' = Some 2 \<and>
        toJSON_upto 4 c' = Some [(''adam'', 29), (''john'', 26), (''angela'', 24), (''bob'', 48)])"
  by (simp add: abc_def fresh_cache_def blank_def five_def assign_def set_lru_def set_step_def
      new_Entry_def has_def toJSON_upto_def pairs_def Let_def eval_nat_numeral)

text \<open>
  C6 as amended. When \<open>assign\<close> throws, the cache is neither unchanged nor empty: the
  index was cleared and then filled with the keys of the first \<open>limit + 1\<close> pairs (the
  pair at which the bound is met included), \<open>oldest\<close> is the entry made for the first
  pair, and \<open>size\<close>, \<open>limit\<close> and \<open>newest\<close> keep the values they had before the call.
\<close>

theorem assign_overflow_state:
  "0 < limit c \<and> limit c < int (length es) \<longrightarrow>
     (\<exists>c'. assign c es = Inl (Overflow, c') \<and>
        (\<forall>k. has c' k \<longleftrightarrow> k \<in> fst ` set (take (nat (limit c) + 1) es)) \<and>
        keymap c' \<noteq> [] \<and> oldest c' = Some (fresh c) \<and>
        newest c' = newest c \<and> size_lru c' = size_lru c \<and> limit c' = limit c)"
proof
  assume h: "0 < limit c \<and> limit c < int (length es)"
  then obtain c' where a: "assign_loop (c\<lparr>keymap := []\<rparr>) None (Some (limit c)) es = Inl (Overflow, c')"
    using assign_loop_throws[of "c\<lparr>keymap := []\<rparr>" None "Some (limit c)" es] by auto
  have s: "assign c es = Inl (Overflow, c')" using a h by (simp add: assign_def)
  have f: "size_lru c' = size_lru c" "limit c' = limit c" "newest c' = newest c"
    "oldest c' = Some (fresh c)"
    "fst ` set (keymap c') = fst ` set (take (nat (limit c) + 1) es)"
    using assign_loop_overflow_state[OF a] h by simp_all
  have "es \<noteq> []" using h by auto
  then have "fst ` set (take (nat (limit c) + 1) es) \<noteq> {}" by (cases es) auto
  then have n: "keymap c' \<noteq> []" using f(5) by auto
  have "\<forall>k. has c' k \<longleftrightarrow> k \<in> fst ` set (take (nat (limit c) + 1) es)"
    unfolding f(5)[symmetric] by (simp add: has_def map_of_eq_None_iff)
  then show "\<exists>c'. assign c es = Inl (Overflow, c') \<and>
        (\<forall>k. has c' k \<longleftrightarrow> k \<in> fst ` set (take (nat (limit c) + 1) es)) \<and>
        keymap c' \<noteq> [] \<and> oldest c' = Some (fresh c) \<and>
        newest c' = newest c \<and> size_lru c' = size_lru c \<and> limit c' = limit c"
    using s n f by blast
qed

theorem assign_overflow_state_witness:
  "0 < limit abc \<and> limit abc < int (length (take 4 five)) \<and>
   (\<exists>c'. assign abc (take 4 five) = Inl (Overflow, c') \<and> has c' ''bob'' \<and> \<not> has c' ''a'' \<and>
      keymap c' \<noteq> [] \<and> oldest c' = Some 3 \<and> newest c' = Some 2 \<and> size_lru c' = 3)"
proof -
  have h: "0 < limit abc \<and> limit abc < int (length (take 4 five))" by code_simp
  have v: "limit abc = 3" "fresh abc = 3" "newest abc = Some 2" "size_lru abc = 3" by code_simp+
  have k: "''bob'' \<in> fst ` set (take (nat 3 + 1) (take 4 five))"
    "''a'' \<notin> fst ` set (take (nat 3 + 1) (take 4 five))"
    by (simp_all add: five_def)
  obtain c' where "assign abc (take 4 five) = Inl (Overflow, c')"
    "\<forall>k. has c' k \<longleftrightarrow> k \<in> fst ` set (take (nat (limit abc) + 1) (take 4 five))"
    "keymap c' \<noteq> []" "oldest c' = Some (fresh abc)" "newest c' = newest abc" "size_lru c' = size_lru abc"
    using assign_overflow_state[of abc "take 4 five"] h by blast
  then show ?thesis using h v k by auto
qed

lemma set_lru_step:
  assumes "inv_on c xs"
  shows "\<exists>ys. inv_on (set_lru c k v) ys"
    and "size_lru (set_lru c k v) =
           size_lru c + (if map_of (keymap c) k = None then 1 else 0)
             - (if fst (set_step c k v) = None then 0 else 1)"
    and "size_lru c \<le> limit c \<Longrightarrow> size_lru (set_lru c k v) \<le> limit c"
proof -
  have "(\<exists>ys. inv_on (set_lru c k v) ys) \<and>
        size_lru (set_lru c k v) =
           size_lru c + (if map_of (keymap c) k = None then 1 else 0)
             - (if fst (set_step c k v) = None then 0 else 1) \<and>
        (size_lru c \<le> limit c \<longrightarrow> size_lru (set_lru c k v) \<le> limit c)"
  proof (cases "map_of (keymap c) k")
    case (Some e)
    have "size_lru (set_lru c k v) = size_lru c"
      using Some by (simp add: set_lru_def set_step_present mark_fields)
    then show ?thesis
      using set_step_present_inv_on(1,2)[OF assms Some, of v] Some by (auto simp: set_lru_def)
  next
    case None
    show ?thesis
    proof (cases "size_lru c < limit c")
      case True
      have "size_lru (set_lru c k v) = size_lru c + 1"
        using set_step_room_inv_on(1)[OF assms None True, of v] by (simp add: set_lru_def appended_fields)
      then show ?thesis
        using set_step_room_inv_on[OF assms None True, of v] None True by (auto simp: set_lru_def)
    next
      case False
      then have f: "limit c \<le> size_lru c" by simp
      have "inv_on (appended c k v) (xs @ [fresh c])" using assms None by (rule appended_inv_on)
      then have "oldest (appended c k v) = Some (hd (xs @ [fresh c]))"
        by (cases xs) (simp_all add: inv_on_def)
      then have "size_lru (set_lru c k v) = size_lru c"
        using set_step_full_inv_on(1)[OF assms None f, of v]
        by (simp add: set_lru_def shift_size appended_fields)
      then show ?thesis
        using set_step_full_inv_on(2,3)[OF assms None f, of v] None f by (auto simp: set_lru_def)
    qed
  qed
  then show "\<exists>ys. inv_on (set_lru c k v) ys"
    and "size_lru (set_lru c k v) =
           size_lru c + (if map_of (keymap c) k = None then 1 else 0)
             - (if fst (set_step c k v) = None then 0 else 1)"
    and "size_lru c \<le> limit c \<Longrightarrow> size_lru (set_lru c k v) \<le> limit c"
    by blast+
qed

lemma run_sets_size:
  "inv_on c xs \<Longrightarrow> size_lru c \<le> limit c \<Longrightarrow>
     (\<exists>ys. inv_on (run_sets c ops) ys) \<and>
     limit (run_sets c ops) = limit c \<and>
     size_lru (run_sets c ops) \<le> limit c \<and>
     size_lru (run_sets c ops) = size_lru c + int (created c ops) - int (evicted c ops)"
proof (induction ops arbitrary: c xs)
  case Nil
  then show ?case by auto
next
  case (Cons p ops)
  obtain k v where p: "p = (k, v)" by (cases p)
  obtain ys where ys: "inv_on (set_lru c k v) ys" using set_lru_step(1)[OF Cons.prems(1)] by blast
  have b: "size_lru (set_lru c k v) \<le> limit (set_lru c k v)"
    using set_lru_step(3)[OF Cons.prems(1,2)] by (simp add: set_lru_limit)
  show ?case
    using Cons.IH[OF ys b] set_lru_step(2)[OF Cons.prems(1), of k v]
    by (simp add: p set_lru_limit)
qed

text \<open>
  C2, the claim as stated fails in its count: with capacity 1, the calls \<open>set\<close> of a, b
  and a again insert two distinct keys and evict twice, and leave one entry.
\<close>

theorem distinct_keys_count_counterexample:
  "LRUMap (Some 1) None blank 0 = Inr (fresh_cache 1) \<and>
   size_lru (run_sets (fresh_cache 1) aba) = 1 \<and>
   length (remdups (map fst aba)) = 2 \<and> evicted (fresh_cache 1) aba = 2 \<and>
   size_lru (run_sets (fresh_cache 1) aba) \<noteq>
     int (length (remdups (map fst aba))) - int (evicted (fresh_cache 1) aba)"
  by (simp add: LRUMap_def aba_def fresh_cache_def set_lru_def set_step_def shift_def
      new_Entry_def Let_def)

text \<open>
  C2 as amended. On a well-formed cache with \<open>size \<le> limit\<close>, every \<open>set\<close> call leaves
  \<open>size \<le> limit\<close> (and the cache well formed); so along every sequence of \<open>set\<close> calls,
  from such a cache and in particular from a freshly constructed one with a limit of
  at least 0, \<open>size\<close> never exceeds \<open>limit\<close>, and it is the size at the start plus the
  number of calls that created an entry (their key was not in the index at the call)
  minus the number of evictions.
\<close>

theorem set_keeps_size_bound:
  "(lru_inv c \<and> size_lru c \<le> limit c \<longrightarrow>
      size_lru (set_lru c k v) \<le> limit (set_lru c k v) \<and> lru_inv (set_lru c k v)) \<and>
   (lru_inv c \<and> size_lru c \<le> limit c \<longrightarrow>
      size_lru (run_sets c ops) \<le> limit (run_sets c ops) \<and>
      size_lru (run_sets c ops) = size_lru c + int (created c ops) - int (evicted c ops)) \<and>
   (LRUMap lim None h n = Inr c \<and> 0 \<le> limit c \<longrightarrow>
      size_lru (run_sets c ops) \<le> limit (run_sets c ops) \<and>
      size_lru (run_sets c ops) = int (created c ops) - int (evicted c ops))"
proof (intro conjI impI)
  assume h: "lru_inv c \<and> size_lru c \<le> limit c"
  then obtain xs where i: "inv_on c xs" using lru_inv_iff by blast
  show "size_lru (set_lru c k v) \<le> limit (set_lru c k v)"
    using set_lru_step(3)[OF i, of k v] h by (simp add: set_lru_limit)
  show "lru_inv (set_lru c k v)" using set_lru_step(1)[OF i, of k v] lru_inv_iff by blast
  show "size_lru (run_sets c ops) \<le> limit (run_sets c ops)"
    using run_sets_size[OF i, of ops] h by simp
  show "size_lru (run_sets c ops) = size_lru c + int (created c ops) - int (evicted c ops)"
    using run_sets_size[OF i, of ops] h by simp
next
  assume h: "LRUMap lim None h n = Inr c \<and> 0 \<le> limit c"
  then have i: "inv_on c []" and z: "size_lru c = 0" using LRUMap_no_entries_inv by blast+
  show "size_lru (run_sets c ops) \<le> limit (run_sets c ops)"
    using run_sets_size[OF i, of ops] h z by simp
  show "size_lru (run_sets c ops) = int (created c ops) - int (evicted c ops)"
    using run_sets_size[OF i, of ops] h z by simp
qed

theorem set_keeps_size_bound_witness:
  "lru_inv abc \<and> size_lru abc \<le> limit abc \<and>
   size_lru (set_lru abc ''d'' 4) \<le> limit (set_lru abc ''d'' 4) \<and> lru_inv (set_lru abc ''d'' 4) \<and>
   LRUMap (Some 1) None blank 0 = Inr (fresh_cache 1) \<and> 0 \<le> limit (fresh_cache 1) \<and>
   created (fresh_cache 1) aba = 3 \<and> evicted (fresh_cache 1) aba = 2 \<and>
   size_lru (run_sets (fresh_cache 1) aba) = 1 \<and>
   size_lru (run_sets (fresh_cache 1) aba) \<le> limit (run_sets (fresh_cache 1) aba)"
proof -
  have h: "lru_inv abc \<and> size_lru abc \<le> limit abc" by code_simp
  have f: "LRUMap (Some 1) None blank 0 = Inr (fresh_cache 1) \<and> 0 \<le> limit (fresh_cache 1)"
    by (simp add: LRUMap_def fresh_cache_def)
  have n: "created (fresh_cache 1) aba = 3" "evicted (fresh_cache 1) aba = 2"
    by (simp_all add: aba_def fresh_cache_def set_lru_def set_step_def shift_def new_Entry_def Let_def)
  have "size_lru (set_lru abc ''d'' 4) \<le> limit (set_lru abc ''d'' 4) \<and> lru_inv (set_lru abc ''d'' 4)"
    using set_keeps_size_bound[of abc "''d''" 4] h by blast
  moreover have "size_lru (run_sets (fresh_cache 1) aba) \<le> limit (run_sets (fresh_cache 1) aba) \<and>
      size_lru (run_sets (fresh_cache 1) aba) = int (created (fresh_cache 1) aba) - int (evicted (fresh_cache 1) aba)"
    using set_keeps_size_bound[of "fresh_cache 1" "''d''" 4 aba "Some 1" blank 0] f by blast
  ultimately show ?thesis using h f n by simp
qed

lemma assign_Nil: "assign c [] = Inr (c\<lparr>keymap := [], newest := None, size_lru := 0\<rparr>)"
  by (simp add: assign_def)

lemma index_ok_length:
  assumes "index_ok km h xs" and "distinct xs"
  shows "length km = length xs"
proof -
  have d: "distinct (map fst km)" and s: "set km = (\<lambda>a. (key (h a), a)) ` set xs"
    using assms(1) by (simp_all add: index_ok_def)
  have "distinct km" using d by (simp add: distinct_map)
  then have "length km = card (set km)" by (simp add: distinct_card)
  also have "\<dots> = card ((\<lambda>a. (key (h a), a)) ` set xs)" by (simp only: s)
  also have "\<dots> = card (set xs)" by (intro card_image inj_onI) simp
  also have "\<dots> = length xs" using assms(2) by (simp add: distinct_card)
  finally show ?thesis .
qed

text \<open>What the invariant says, in the words of the data model.\<close>

lemma inv_on_facts:
  assumes "inv_on c xs"
  shows "size_lru c = int (length (keymap c))"
    and "fst ` set (keymap c) = (\<lambda>a. key (heap c a)) ` set xs"
    and "size_lru c = 0 \<longleftrightarrow> oldest c = None"
    and "size_lru c = 0 \<longleftrightarrow> newest c = None"
    and "size_lru c = 1 \<Longrightarrow> oldest c = newest c \<and>
           (\<exists>a. oldest c = Some a \<and> newer (heap c a) = None \<and> older (heap c a) = None)"
proof -
  show "size_lru c = int (length (keymap c))"
    using assms index_ok_length[of "keymap c" "heap c" xs] by (simp add: inv_on_def)
  show "fst ` set (keymap c) = (\<lambda>a. key (heap c a)) ` set xs"
    using assms by (force simp: inv_on_def index_ok_def)
  show "size_lru c = 0 \<longleftrightarrow> oldest c = None"
    using assms by (cases xs) (auto simp: inv_on_def)
  show "size_lru c = 0 \<longleftrightarrow> newest c = None"
    using assms by (cases xs rule: rev_cases) (auto simp: inv_on_def)
  show "oldest c = newest c \<and>
           (\<exists>a. oldest c = Some a \<and> newer (heap c a) = None \<and> older (heap c a) = None)"
    if "size_lru c = 1"
  proof -
    have "length xs = 1" using that assms by (simp add: inv_on_def)
    then obtain a where "xs = [a]" by (cases xs) auto
    then show ?thesis using assms by (simp add: inv_on_def)
  qed
qed

lemma clear_inv_on: "inv_on (clear c) []"
  by (simp add: clear_def inv_on_def index_ok_def)

lemma lru_inv_preserved:
  assumes "lru_inv c"
  shows "lru_inv (set_lru c k v)" and "lru_inv (snd (get c k))" and "lru_inv (snd (delete c k))"
    and "lru_inv (snd (shift c))" and "lru_inv (clear c)"
proof -
  obtain xs where i: "inv_on c xs" using assms lru_inv_iff by blast
  show "lru_inv (set_lru c k v)" using set_lru_step(1)[OF i, of k v] lru_inv_iff by blast
  show "lru_inv (snd (get c k))"
  proof (cases "map_of (keymap c) k")
    case None
    then show ?thesis using assms by (simp add: get_absent)
  next
    case (Some e)
    then have "e \<in> set xs" using inv_on_lookup[OF i, of k e] by simp
    then have "inv_on (markEntryAsUsed e c) (remove1 e xs @ [e])" using i mark_inv_on by blast
    then show ?thesis using Some inv_on_lru_inv by (simp add: get_present)
  qed
  show "lru_inv (snd (delete c k))"
  proof (cases "map_of (keymap c) k")
    case None
    then show ?thesis using assms by (simp add: delete_absent)
  next
    case (Some e)
    then have "e \<in> set xs" using inv_on_lookup[OF i, of k e] by simp
    then obtain us vs where "xs = us @ e # vs" by (meson split_list)
    then have "inv_on (snd (delete c k)) (us @ vs)" using i Some delete_inv_on[of c us e vs k] by simp
    then show ?thesis by (rule inv_on_lru_inv)
  qed
  show "lru_inv (snd (shift c))"
  proof (cases xs)
    case Nil
    then have "oldest c = None" using i by (simp add: inv_on_def)
    then show ?thesis using assms by (simp add: shift_empty)
  next
    case (Cons a as)
    then have "inv_on (snd (shift c)) as" using i shift_inv_on(2) by blast
    then show ?thesis by (rule inv_on_lru_inv)
  qed
  show "lru_inv (clear c)" using clear_inv_on by (rule inv_on_lru_inv)
qed

lemma assign_loop_inv:
  assumes "assign_loop c entry lim es = Inr c'"
    and "ys \<noteq> [] \<longrightarrow> seg newer (heap c) (oldest c) ys None"
    and "seg older (heap c) entry (rev ys) None"
    and "distinct ys" and "\<forall>a\<in>set ys. a < fresh c"
    and "index_ok (keymap c) (heap c) ys"
    and "distinct (map fst es)" and "fst ` set (keymap c) \<inter> fst ` set es = {}"
    and "ys \<noteq> [] \<or> es \<noteq> []"
  shows "inv_on c' (ys @ [fresh c ..< fresh c + length es])"
  using assms
proof (induction es arbitrary: c entry lim ys)
  case Nil
  then have "length (keymap c) = length ys" using index_ok_length by blast
  then show ?case using Nil by (auto simp: inv_on_def)
next
  case (Cons p es)
  obtain k v where p: "p = (k, v)" by (cases p)
  let ?e = "fresh c"
  let ?c3 = "(case entry of
                None \<Rightarrow> (snd (new_Entry k v c))\<lparr>keymap := AList.update k ?e (keymap c), oldest := Some ?e\<rparr>
              | Some q \<Rightarrow> set_OLDER ?e (Some q) (set_NEWER q (Some ?e)
                  ((snd (new_Entry k v c))\<lparr>keymap := AList.update k ?e (keymap c)\<rparr>)))"
  have f: "?e \<notin> set ys" using Cons.prems(5) by auto
  have kn: "map_of (keymap c) k = None" "k \<notin> fst ` set es"
    using Cons.prems(7,8) by (auto simp: p map_of_eq_None_iff)
  have r: "assign_loop ?c3 (Some ?e) (map_option (\<lambda>l. l - 1) lim) es = Inr c'"
    using Cons.prems(1)
    by (cases entry; cases "lim = Some 0") (simp_all add: p Let_def split_def new_Entry_def)
  have k3: "keymap ?c3 = AList.update k ?e (keymap c)" and f3: "fresh ?c3 = Suc ?e"
    by (cases entry; simp add: new_Entry_def)+
  have a1: "seg newer (heap ?c3) (oldest ?c3) (ys @ [?e]) None
          \<and> seg older (heap ?c3) (Some ?e) (rev (ys @ [?e])) None
          \<and> index_ok (keymap c) (heap ?c3) ys \<and> key (heap ?c3 ?e) = k"
  proof (cases ys rule: rev_cases)
    case Nil
    then have "entry = None" using Cons.prems(3) by simp
    then show ?thesis using Nil Cons.prems(6) by (simp add: new_Entry_def)
  next
    case (snoc ys0 q)
    then have e: "entry = Some q" using Cons.prems(3) by simp
    have "q \<noteq> ?e" "?e \<notin> set ys0" "q \<notin> set ys0" using snoc f Cons.prems(4) by auto
    then show ?thesis using snoc e Cons.prems(2,3,6)
      by (simp add: new_Entry_def)
  qed
  have a2: "index_ok (keymap ?c3) (heap ?c3) (ys @ [?e])"
    unfolding k3 using a1 kn(1) f by (intro index_ok_update) simp_all
  have a3: "fst ` set (keymap ?c3) \<inter> fst ` set es = {}"
    unfolding k3 dom_update using Cons.prems(8) kn(2) by (auto simp: p)
  have "inv_on c' ((ys @ [?e]) @ [fresh ?c3 ..< fresh ?c3 + length es])"
  proof (rule Cons.IH[OF r])
    show "ys @ [?e] \<noteq> [] \<longrightarrow> seg newer (heap ?c3) (oldest ?c3) (ys @ [?e]) None" using a1 by blast
    show "seg older (heap ?c3) (Some ?e) (rev (ys @ [?e])) None" using a1 by blast
    show "distinct (ys @ [?e])" using Cons.prems(4) f by simp
    show "\<forall>a\<in>set (ys @ [?e]). a < fresh ?c3" unfolding f3 using Cons.prems(5) by auto
    show "index_ok (keymap ?c3) (heap ?c3) (ys @ [?e])" by (rule a2)
    show "distinct (map fst es)" using Cons.prems(7) by simp
    show "fst ` set (keymap ?c3) \<inter> fst ` set es = {}" by (rule a3)
    show "ys @ [?e] \<noteq> [] \<or> es \<noteq> []" by simp
  qed
  moreover have "[fresh c ..< fresh c + length (p # es)] = fresh c # [Suc (fresh c) ..< Suc (fresh c) + length es]"
    by (subst upt_conv_Cons) simp_all
  ultimately show ?case unfolding f3 by simp
qed

lemma assign_inv:
  assumes "assign c es = Inr c'" and "es \<noteq> []" and "distinct (map fst es)"
  shows "inv_on c' [fresh c ..< fresh c + length es]" and "lru_inv c'"
proof -
  let ?c0 = "c\<lparr>keymap := []\<rparr>"
  have "inv_on c' ([] @ [fresh ?c0 ..< fresh ?c0 + length es])"
    using assms by (intro assign_loop_inv[of ?c0 None _ es]) (simp_all add: assign_def index_ok_def)
  then show "inv_on c' [fresh c ..< fresh c + length es]" by simp
  then show "lru_inv c'" by (rule inv_on_lru_inv)
qed

text \<open>
  C4. \<open>set\<close>, \<open>get\<close>, \<open>delete\<close>, \<open>shift\<close> and \<open>clear\<close> keep the structural invariant
  (\<open>lru_inv_preserved\<close>), and \<open>assign\<close> establishes it for a non-empty list of pairs with
  distinct keys (\<open>assign_inv\<close>). \<open>assign\<close> of an empty list does not: it sets \<open>oldest\<close>
  only inside its loop, so on the cache a, b, c it returns normally with \<open>size\<close> 0, an
  empty index and \<open>newest\<close> undefined, while \<open>oldest\<close> still refers to the entry of a,
  the loop of \<open>toJSON\<close> still finds a, b and c, and the next \<open>shift()\<close> returns a and
  leaves \<open>size\<close> at -1.
\<close>

theorem assign_empty_keeps_oldest:
  "(case assign abc [] of
      Inl x \<Rightarrow> False
    | Inr c' \<Rightarrow>
        size_lru c' = 0 \<and> keymap c' = [] \<and> newest c' = None \<and> oldest c' = Some 0 \<and>
        toJSON_upto 3 c' = Some [(''a'', 1), (''b'', 2), (''c'', 3)] \<and>
        fst (shift c') = Some (''a'', 1) \<and> size_lru (snd (shift c')) = - 1)"
  by (simp add: assign_Nil abc_def fresh_cache_def blank_def set_lru_def set_step_def shift_def
      new_Entry_def toJSON_upto_def pairs_def Let_def eval_nat_numeral)

lemma assign_empty_breaks_inv:
  "lru_inv c \<Longrightarrow> size_lru c \<noteq> 0 \<Longrightarrow> assign c [] = Inr c' \<Longrightarrow> \<not> lru_inv c'"
proof
  assume a: "lru_inv c" "size_lru c \<noteq> 0" "assign c [] = Inr c'" "lru_inv c'"
  obtain xs where xs: "inv_on c xs" using a(1) lru_inv_iff by blast
  obtain ys where ys: "inv_on c' ys" using a(4) lru_inv_iff by blast
  have c': "c' = c\<lparr>keymap := [], newest := None, size_lru := 0\<rparr>" using a(3) by (simp add: assign_Nil)
  have "oldest c \<noteq> None" using inv_on_facts(3)[OF xs] a(2) by simp
  moreover have "oldest c' = None" using inv_on_facts(3)[OF ys] c' by simp
  ultimately show False using c' by simp
qed

end
